theory Spec2Isabelle
  imports Complex_Main
begin

section \<open>Data model\<close>

text \<open>
  A cell is the string the source stores in it: the empty string for an Empty cell and
  the string X for a Marked one. A board (\<open>BoardState\<close>) is the array of its cells in
  row-major order, a board set is an array of boards.
\<close>

type_synonym BoardState = "string list"

text \<open>
  Reading a JavaScript array: \<open>xs[i]\<close> is \<open>undefined\<close> (here \<open>None\<close>) outside the
  array, and \<open>undefined\<close> is equal neither to the empty string nor to the string X.
  Indices are the non-negative integers the callers produce.
\<close>

definition nth_opt :: "'a list \<Rightarrow> nat \<Rightarrow> 'a option" where
  "nth_opt xs i = (if i < length xs then Some (xs ! i) else None)"

text \<open>\<open>xs.slice(a, b)\<close> for non-negative \<open>a\<close> and \<open>b\<close>.\<close>

definition slice :: "'a list \<Rightarrow> nat \<Rightarrow> nat \<Rightarrow> 'a list" where
  "slice xs a b = take (b - a) (drop a xs)"

datatype move = Move (boardIndex: nat) (cellIndex: nat)

text \<open>
  A JavaScript number as the search uses it: an integer score, or one of the two
  infinities. The order is the numeric one.
\<close>

datatype jsnum = NegInf | Fin int | PosInf

instantiation jsnum :: linorder
begin

fun less_eq_jsnum :: "jsnum \<Rightarrow> jsnum \<Rightarrow> bool" where
  "less_eq_jsnum NegInf y = True"
| "less_eq_jsnum (Fin a) NegInf = False"
| "less_eq_jsnum (Fin a) (Fin b) = (a \<le> b)"
| "less_eq_jsnum (Fin a) PosInf = True"
| "less_eq_jsnum PosInf NegInf = False"
| "less_eq_jsnum PosInf (Fin b) = False"
| "less_eq_jsnum PosInf PosInf = True"

definition less_jsnum :: "jsnum \<Rightarrow> jsnum \<Rightarrow> bool" where
  "less_jsnum x y = (x \<le> y \<and> \<not> y \<le> x)"

instance
proof
  fix x y z :: jsnum
  show "(x < y) = (x \<le> y \<and> \<not> y \<le> x)"
    by (simp add: less_jsnum_def)
  show "x \<le> x"
    by (cases x) simp_all
  show "x \<le> y \<Longrightarrow> y \<le> z \<Longrightarrow> x \<le> z"
    by (cases x; cases y; cases z) simp_all
  show "x \<le> y \<Longrightarrow> y \<le> x \<Longrightarrow> x = y"
    by (cases x; cases y) simp_all
  show "x \<le> y \<or> y \<le> x"
    by (cases x; cases y) auto
qed

end

section \<open>Pattern catalog (ai.ts, getWinPatterns)\<close>

text \<open>
  The body of \<open>getWinPatterns\<close> below the cache lookup: row \<open>i\<close> and column \<open>i\<close> are
  pushed together for each \<open>i\<close>, then the two diagonals.
\<close>

definition winPatterns :: "nat \<Rightarrow> nat list list" where
  "winPatterns sz =
     concat (map (\<lambda>i. [map (\<lambda>j. i * sz + j) [0..<sz], map (\<lambda>j. i + j * sz) [0..<sz]]) [0..<sz])
     @ [map (\<lambda>i. i * (sz + 1)) [0..<sz], map (\<lambda>i. (i + 1) * (sz - 1)) [0..<sz]]"

text \<open>
  \<open>getWinPatterns\<close> with its module-level cache \<open>winPatternsCache\<close> made explicit: the
  cache is read, and on a miss the patterns are computed and stored.
\<close>

type_synonym patternCache = "nat \<rightharpoonup> nat list list"

definition getWinPatterns :: "patternCache \<Rightarrow> nat \<Rightarrow> nat list list \<times> patternCache" where
  "getWinPatterns cache sz =
     (case cache sz of
        Some patterns \<Rightarrow> (patterns, cache)
      | None \<Rightarrow> (let patterns = winPatterns sz in (patterns, cache(sz \<mapsto> patterns))))"

text \<open>
  The cache is private to the module and written by \<open>getWinPatterns\<close> only, so every
  cache the program can hold is one of these.
\<close>

inductive reachableCache :: "patternCache \<Rightarrow> bool" where
  reach_empty: "reachableCache Map.empty"
| reach_call: "reachableCache c \<Longrightarrow> reachableCache (snd (getWinPatterns c sz))"

section \<open>Board evaluator (ai.ts)\<close>

text \<open>
  \<open>getCellValue\<close>: the table built on the first call for a board size holds, for
  every cell \<open>i\<close> below \<open>size * size\<close>, the negated Manhattan distance to the centre
  \<open>(size - 1) / 2\<close>. The values are halves of integers, exact in the source's
  arithmetic. The table has no entry for an index at or beyond \<open>size * size\<close>; the
  boards of a match have \<open>size * size\<close> cells, so every candidate cell has one, and
  the formula stands for the table.
\<close>

definition getCellValue :: "nat \<Rightarrow> nat \<Rightarrow> rat" where
  "getCellValue ci sz =
     (let center = (of_nat sz - 1) / 2;
          row = ci div sz;
          col = ci mod sz
      in - \<bar>of_nat row - center\<bar> - \<bar>of_nat col - center\<bar>)"

text \<open>
  \<open>isBoardDead\<close> of ai.ts. It reads the catalog through \<open>getWinPatterns\<close>, which on
  every reachable cache returns \<open>winPatterns\<close> (lemma \<open>getWinPatterns_reachable\<close>).
\<close>

definition isBoardDead :: "BoardState \<Rightarrow> nat \<Rightarrow> bool" where
  "isBoardDead board sz =
     list_ex (\<lambda>pattern. list_all (\<lambda>i. nth_opt board i = Some ''X'') pattern) (winPatterns sz)"

text \<open>The inner counting loop of \<open>heuristic\<close>.\<close>

definition xCount :: "BoardState \<Rightarrow> nat list \<Rightarrow> int" where
  "xCount board pattern =
     fold (\<lambda>i n. if nth_opt board i = Some ''X'' then n + 1 else n) pattern 0"

text \<open>
  The loop over the patterns of one board: \<open>break\<close> on a pattern with
  \<open>sizeMinus1\<close> marks, after subtracting 10.
\<close>

fun scanPatterns :: "BoardState \<Rightarrow> int \<Rightarrow> nat list list \<Rightarrow> int \<Rightarrow> int" where
  "scanPatterns board sizeMinus1 [] boardScore = boardScore"
| "scanPatterns board sizeMinus1 (pattern # rest) boardScore =
     (let n = xCount board pattern
      in if n = sizeMinus1 then boardScore - 10
         else if n = sizeMinus1 - 1 then scanPatterns board sizeMinus1 rest (boardScore - 1)
         else scanPatterns board sizeMinus1 rest boardScore)"

definition heuristic :: "BoardState list \<Rightarrow> nat \<Rightarrow> int" where
  "heuristic bs sz =
     (let patterns = winPatterns sz;
          sizeMinus1 = int sz - 1
      in fold (\<lambda>board score.
                 if isBoardDead board sz then score
                 else score + scanPatterns board sizeMinus1 patterns 0) bs 0)"

text \<open>
  \<open>getValidMoves\<close>: the moves are collected board by board and cell by cell, then
  sorted by descending cell value. \<open>Array.prototype.sort\<close> is stable, as is
  \<open>sort_key\<close>.
\<close>

definition collectMoves :: "BoardState list \<Rightarrow> nat \<Rightarrow> move list" where
  "collectMoves bs sz =
     concat (map (\<lambda>bi. let board = bs ! bi
                        in if isBoardDead board sz then []
                           else map (Move bi) (filter (\<lambda>ci. board ! ci = '''') [0..<length board]))
                 [0..<length bs])"

definition getValidMoves :: "BoardState list \<Rightarrow> nat \<Rightarrow> move list" where
  "getValidMoves bs sz = sort_key (\<lambda>m. - getCellValue (cellIndex m) sz) (collectMoves bs sz)"

text \<open>
  \<open>updateBoards\<close> copies the board set and the target board and marks the cell. Its
  callers pass moves of \<open>getValidMoves\<close> only, whose indices are inside the arrays
  (lemma \<open>getValidMoves_in_range\<close>), where the assignment is the update of one cell;
  the source would throw on a board index outside the board set.
\<close>

definition updateBoards :: "BoardState list \<Rightarrow> move \<Rightarrow> BoardState list" where
  "updateBoards bs m = bs[boardIndex m := (bs ! boardIndex m)[cellIndex m := ''X'']]"

section \<open>Adversarial search (ai.ts)\<close>

definition getMaxDepth :: "nat \<Rightarrow> nat \<Rightarrow> nat \<Rightarrow> nat" where
  "getMaxDepth sz numberOfBoards difficulty =
     (let complexity = sz * numberOfBoards
      in if complexity \<le> 9 then min 5 (difficulty + 2)
         else if complexity \<le> 16 then min 4 (difficulty + 1)
         else min 3 difficulty)"

text \<open>
  The loop over the moves in \<open>minimax\<close>. \<open>ev\<close> is the recursive call on the board set
  after the move, with the current window.
\<close>

fun minimax_loop ::
  "(BoardState list \<Rightarrow> jsnum \<Rightarrow> jsnum \<Rightarrow> jsnum) \<Rightarrow> bool \<Rightarrow> BoardState list \<Rightarrow> move list \<Rightarrow>
   jsnum \<Rightarrow> jsnum \<Rightarrow> jsnum \<Rightarrow> jsnum" where
  "minimax_loop ev isMaximizing bs [] bestValue alpha beta = bestValue"
| "minimax_loop ev isMaximizing bs (m # moves) bestValue alpha beta =
     (let newBoards = updateBoards bs m;
          v = ev newBoards alpha beta;
          bestValue' = (if isMaximizing then max bestValue v else min bestValue v);
          alpha' = (if isMaximizing then max alpha v else alpha);
          beta' = (if isMaximizing then beta else min beta v)
      in if beta' \<le> alpha' then bestValue'
         else minimax_loop ev isMaximizing bs moves bestValue' alpha' beta')"

fun minimax :: "BoardState list \<Rightarrow> nat \<Rightarrow> bool \<Rightarrow> nat \<Rightarrow> jsnum \<Rightarrow> jsnum \<Rightarrow> jsnum" where
  "minimax bs depth isMaximizing sz alpha beta =
     (if list_all (\<lambda>board. isBoardDead board sz) bs
      then (if isMaximizing then NegInf else PosInf)
      else if depth = 0 then Fin (heuristic bs sz)
      else minimax_loop (\<lambda>newBoards a b. minimax newBoards (depth - 1) (\<not> isMaximizing) sz a b)
             isMaximizing bs (getValidMoves bs sz)
             (if isMaximizing then NegInf else PosInf) alpha beta)"

text \<open>
  The loop of \<open>findBestMove\<close> over the candidate moves, with \<open>bestScore\<close> and
  \<open>bestMoves\<close> as they stand before the move is evaluated.
\<close>

fun findBestMove_loop ::
  "BoardState list \<Rightarrow> nat \<Rightarrow> nat \<Rightarrow> move list \<Rightarrow> jsnum \<Rightarrow> move list \<Rightarrow> move list" where
  "findBestMove_loop bs maxDepth sz [] bestScore bestMoves = bestMoves"
| "findBestMove_loop bs maxDepth sz (m # moves) bestScore bestMoves =
     (let newBoards = updateBoards bs m;
          moveScore = minimax newBoards maxDepth False sz NegInf PosInf;
          bestScore' = (if moveScore > bestScore then moveScore else bestScore);
          bestMoves' = (if moveScore > bestScore then [m]
                        else if moveScore = bestScore then bestMoves @ [m]
                        else bestMoves)
      in if moveScore = PosInf then bestMoves'
         else findBestMove_loop bs maxDepth sz moves bestScore' bestMoves')"

text \<open>
  The result of \<open>findBestMove\<close>: \<open>null\<close>, a move, or \<open>undefined\<close> if the index read
  were outside \<open>bestMoves\<close>. \<open>rnd\<close> is the value of \<open>Math.random()\<close>, a number
  that is at least 0 and less than 1.
\<close>

datatype moveResult = Null | Undefined | Chosen move

definition findBestMove :: "BoardState list \<Rightarrow> nat \<Rightarrow> nat \<Rightarrow> nat \<Rightarrow> real \<Rightarrow> moveResult" where
  "findBestMove bs difficulty sz numberOfBoards rnd =
     (let moves = getValidMoves bs sz
      in if length moves = 0 then Null
         else let maxDepth = getMaxDepth sz numberOfBoards difficulty;
                  bestMoves = findBestMove_loop bs maxDepth sz moves NegInf [];
                  k = nat \<lfloor>rnd * real (length bestMoves)\<rfloor>
              in (case nth_opt bestMoves k of None \<Rightarrow> Undefined | Some m \<Rightarrow> Chosen m))"

section \<open>Game state machine (App.tsx)\<close>

datatype player = Player1 | Player2

datatype mode = VsComputer | VsPlayer

text \<open>
  The component's state variables that the handlers below read or write. A handler
  reads the values of the current render and its updates are applied together, so a
  handler is a function from the state to the next state.
\<close>

record state =
  boards :: "BoardState list"
  currentPlayer :: player
  gameMode :: "mode option"
  gameHistory :: "BoardState list list"
  numberOfBoards :: nat
  boardSize :: nat
  difficulty :: nat
  coins :: int
  XP :: int
  player1Name :: string
  player2Name :: string
  showWinnerModal :: bool
  winner :: string

text \<open>
  \<open>isBoardDead\<close> of App.tsx, which recomputes the lines from the board instead of
  using the catalog. A row is a slice of the board, so it is shorter than \<open>sz\<close> where
  the board ends early, and \<open>every\<close> holds of an empty row.
\<close>

definition isBoardDead_App :: "nat \<Rightarrow> BoardState \<Rightarrow> bool" where
  "isBoardDead_App sz board =
     (list_ex (\<lambda>i. let row = slice board (i * sz) ((i + 1) * sz);
                       col = map (\<lambda>j. nth_opt board (i + j * sz)) [0..<sz]
                   in list_all (\<lambda>c. c = ''X'') row \<or> list_all (\<lambda>c. c = Some ''X'') col)
              [0..<sz]
      \<or> (let diag1 = map (\<lambda>i. nth_opt board (i * (sz + 1))) [0..<sz];
              diag2 = map (\<lambda>i. nth_opt board ((i + 1) * (sz - 1))) [0..<sz]
          in list_all (\<lambda>c. c = Some ''X'') diag1 \<or> list_all (\<lambda>c. c = Some ''X'') diag2))"

text \<open>
  \<open>handleMove\<close>. Reading a cell of \<open>boards[boardIndex]\<close> throws a TypeError when the
  board set has no such board. \<open>calculateRewards\<close> is a function of the economy
  module and is taken as a parameter, returning the coins and the experience points
  as integers; \<open>Math.round(XP + xp * 0.25)\<close> is then \<open>(4 * XP + xp + 2) div 4\<close>.
  The sounds played have no effect on the state.
\<close>

datatype error = TypeError

definition markCell :: "BoardState list \<Rightarrow> nat \<Rightarrow> nat \<Rightarrow> BoardState list" where
  "markCell bs bi ci =
     map (\<lambda>(idx, board). if idx = bi then slice board 0 ci @ [''X''] @ drop (ci + 1) board
                          else board)
         (enumerate 0 bs)"

definition other :: "player \<Rightarrow> player" where
  "other p = (if p = Player1 then Player2 else Player1)"

definition handleMove ::
  "(bool \<Rightarrow> nat \<Rightarrow> nat \<Rightarrow> nat \<Rightarrow> int \<times> int) \<Rightarrow> state \<Rightarrow> nat \<Rightarrow> nat \<Rightarrow> error + state" where
  "handleMove calculateRewards s bi ci =
     (case nth_opt (boards s) bi of
        None \<Rightarrow> Inl TypeError
      | Some target \<Rightarrow>
          if nth_opt target ci \<noteq> Some '''' \<or> isBoardDead_App (boardSize s) target then Inr s
          else
            let newBoards = markCell (boards s) bi ci;
                s1 = s\<lparr>boards := newBoards, gameHistory := gameHistory s @ [newBoards]\<rparr>
            in if list_all (isBoardDead_App (boardSize s)) newBoards
               then
                 let loser = currentPlayer s;
                     winnerSide = other loser;
                     isHumanWinner = (gameMode s = Some VsComputer \<and> winnerSide = Player1);
                     isComputerWinner = (gameMode s = Some VsComputer \<and> winnerSide = Player2);
                     rewards = calculateRewards isHumanWinner (difficulty s) (numberOfBoards s)
                                 (boardSize s);
                     s2 = (if isHumanWinner
                           then s1\<lparr>coins := coins s + fst rewards, XP := XP s + snd rewards\<rparr>
                           else s1);
                     s3 = (if isComputerWinner
                           then s2\<lparr>XP := (4 * XP s + snd rewards + 2) div 4\<rparr>
                           else s2);
                     winnerName = (if winnerSide = Player1 then player1Name s else player2Name s)
                 in Inr (s3\<lparr>winner := winnerName, showWinnerModal := True\<rparr>)
               else Inr (s1\<lparr>currentPlayer := other (currentPlayer s)\<rparr>))"

definition resetGame :: "nat \<Rightarrow> nat \<Rightarrow> state \<Rightarrow> state" where
  "resetGame num sz s =
     (let initialBoards = replicate num (replicate (sz * sz) '''')
      in s\<lparr>boards := initialBoards, currentPlayer := Player1,
            gameHistory := [initialBoards], showWinnerModal := False\<rparr>)"

text \<open>
  \<open>handleUndo\<close>: with three snapshots or more and 100 coins, the boards go back two
  plies and the last two snapshots are dropped; otherwise an alert is shown and the
  state is left as it is.
\<close>

definition handleUndo :: "state \<Rightarrow> state" where
  "handleUndo s =
     (if length (gameHistory s) \<ge> 3
      then (if coins s \<ge> 100
            then s\<lparr>coins := coins s - 100,
                   boards := gameHistory s ! (length (gameHistory s) - 3),
                   gameHistory := slice (gameHistory s) 0 (length (gameHistory s) - 2)\<rparr>
            else s)
      else s)"

definition handleSkip :: "state \<Rightarrow> state" where
  "handleSkip s =
     (if coins s \<ge> 200
      then s\<lparr>coins := coins s - 200, currentPlayer := other (currentPlayer s)\<rparr>
      else s)"

text \<open>
  The values the state variables are created with; the coins and the experience
  points are the defaults the component falls back to.
\<close>

definition initialState :: state where
  "initialState =
     \<lparr>boards = [], currentPlayer = Player1, gameMode = None, gameHistory = [],
      numberOfBoards = 3, boardSize = 3, difficulty = 1, coins = 1000, XP = 0,
      player1Name = ''Player 1'', player2Name = ''Player 2'',
      showWinnerModal = False, winner = ''''\<rparr>"

section \<open>Notions of the specification\<close>

text \<open>
  A board obtained from another by changing Empty cells to Marked: the same length,
  and every cell either unchanged or turned from Empty to Marked.
\<close>

definition marksAdded :: "BoardState \<Rightarrow> BoardState \<Rightarrow> bool" where
  "marksAdded board board' =
     list_all2 (\<lambda>c c'. c' = c \<or> (c = '''' \<and> c' = ''X'')) board board'"

text \<open>
  A move is valid if its target board exists and is not dead and its target cell is
  Empty.
\<close>

definition legalMove :: "BoardState list \<Rightarrow> nat \<Rightarrow> move \<Rightarrow> bool" where
  "legalMove bs sz m =
     (case nth_opt bs (boardIndex m) of
        None \<Rightarrow> False
      | Some board \<Rightarrow> \<not> isBoardDead board sz \<and> nth_opt board (cellIndex m) = Some '''')"

text \<open>
  The heuristic as the specification words it. The number of Marked cells of a
  pattern; the contribution of one board: nothing for a dead board, otherwise minus
  ten if some pattern has \<open>size - 1\<close> marks, and minus one for every pattern with
  \<open>size - 2\<close> marks that comes before the first such pattern in catalog order.
\<close>

definition markedCount :: "BoardState \<Rightarrow> nat list \<Rightarrow> int" where
  "markedCount board pattern =
     int (length (filter (\<lambda>i. nth_opt board i = Some ''X'') pattern))"

definition boardContribution :: "BoardState \<Rightarrow> nat \<Rightarrow> int" where
  "boardContribution board sz =
     (if isBoardDead board sz then 0
      else (let scanned = takeWhile (\<lambda>p. markedCount board p \<noteq> int sz - 1) (winPatterns sz)
            in (if list_ex (\<lambda>p. markedCount board p = int sz - 1) (winPatterns sz)
                then - 10 else 0)
               - int (length (filter (\<lambda>p. markedCount board p = int sz - 2) scanned))))"

text \<open>
  Plain minimax, without a window and without pruning: every move is searched and
  the values are folded with max or min.
\<close>

fun plainMinimax :: "BoardState list \<Rightarrow> nat \<Rightarrow> bool \<Rightarrow> nat \<Rightarrow> jsnum" where
  "plainMinimax bs depth isMaximizing sz =
     (if list_all (\<lambda>board. isBoardDead board sz) bs
      then (if isMaximizing then NegInf else PosInf)
      else if depth = 0 then Fin (heuristic bs sz)
      else fold (\<lambda>m best.
                   let v = plainMinimax (updateBoards bs m) (depth - 1) (\<not> isMaximizing) sz
                   in if isMaximizing then max best v else min best v)
                (getValidMoves bs sz)
                (if isMaximizing then NegInf else PosInf))"

text \<open>
  The score \<open>findBestMove\<close> gives a candidate move; the candidates it evaluates, up
  to and including the first one that scores plus infinity; and among those the moves
  whose score no evaluated move exceeds.
\<close>

definition moveScore :: "BoardState list \<Rightarrow> nat \<Rightarrow> nat \<Rightarrow> move \<Rightarrow> jsnum" where
  "moveScore bs maxDepth sz m = minimax (updateBoards bs m) maxDepth False sz NegInf PosInf"

fun evaluatedMoves :: "(move \<Rightarrow> jsnum) \<Rightarrow> move list \<Rightarrow> move list" where
  "evaluatedMoves sc [] = []"
| "evaluatedMoves sc (m # ms) = (if sc m = PosInf then [m] else m # evaluatedMoves sc ms)"

definition tiedBest :: "(move \<Rightarrow> jsnum) \<Rightarrow> move list \<Rightarrow> move list" where
  "tiedBest sc ms =
     (let ev = evaluatedMoves sc ms
      in filter (\<lambda>m. list_all (\<lambda>m'. sc m' \<le> sc m) ev) ev)"

text \<open>
  The bound a search with window \<open>(a, b)\<close> gives on the true value \<open>v\<close> by its
  result \<open>r\<close>: exact inside the window, a bound on the right side outside.
\<close>

definition fishburn :: "jsnum \<Rightarrow> jsnum \<Rightarrow> jsnum \<Rightarrow> jsnum \<Rightarrow> bool" where
  "fishburn a b v r =
     ((r \<le> a \<longrightarrow> v \<le> r) \<and> (a < r \<and> r < b \<longrightarrow> r = v) \<and> (b \<le> r \<longrightarrow> r \<le> v))"

declare minimax.simps [simp del] plainMinimax.simps [simp del]

section \<open>Pattern catalog: size, shape and cache\<close>

lemma length_winPatterns: "length (winPatterns sz) = 2 * sz + 2"
  by (simp add: winPatterns_def length_concat comp_def sum_list_triv)

lemma set_winPatterns:
  "set (winPatterns sz) =
     (\<lambda>i. map (\<lambda>j. i * sz + j) [0..<sz]) ` {..<sz} \<union> (\<lambda>i. map (\<lambda>j. i + j * sz) [0..<sz]) ` {..<sz}
     \<union> {map (\<lambda>i. i * (sz + 1)) [0..<sz], map (\<lambda>i. (i + 1) * (sz - 1)) [0..<sz]}"
  by (auto simp: winPatterns_def)

lemma row_bound: "i < sz \<Longrightarrow> j < sz \<Longrightarrow> i * sz + j < sz * (sz::nat)"
proof -
  assume a: "i < sz" "j < sz"
  have "i * sz + j < i * sz + sz" using a by simp
  also have "\<dots> = (i + 1) * sz" by simp
  also have "\<dots> \<le> sz * sz" using a by (simp del: mult_Suc add: Suc_leI)
  finally show ?thesis .
qed

lemma map_pattern:
  assumes "inj_on f {0..<sz}" "\<And>i. i < sz \<Longrightarrow> f i < sz * sz"
  shows "length (map f [0..<sz]) = sz \<and> distinct (map f [0..<sz])
         \<and> (\<forall>k \<in> set (map f [0..<sz]). k < sz * sz)"
  using assms by (auto simp: distinct_map)

lemma pattern_props:
  assumes "p \<in> set (winPatterns sz)" "1 \<le> sz"
  shows "length p = sz \<and> distinct p \<and> (\<forall>k \<in> set p. k < sz * sz)"
proof -
  have d1: "inj_on (\<lambda>i. i * (sz + 1)) {0..<sz}"
  proof (rule inj_onI)
    fix x y assume "x * (sz + 1) = y * (sz + 1)"
    then have "x = y \<or> sz + 1 = 0" by (simp only: mult_cancel2)
    then show "x = y" by simp
  qed
  have d2: "inj_on (\<lambda>i. (i + 1) * (sz - 1)) {0..<sz}"
  proof (cases "sz = 1")
    case True then show ?thesis by (auto intro: inj_onI)
  next
    case False
    with assms(2) have pos: "sz - 1 > 0" by simp
    show ?thesis
    proof (rule inj_onI)
      fix x y assume "(x + 1) * (sz - 1) = (y + 1) * (sz - 1)"
      then have "x + 1 = y + 1 \<or> sz - 1 = 0" by (simp only: mult_cancel2)
      with pos show "x = y" by simp
    qed
  qed
  have r: "inj_on (\<lambda>j. i * sz + j) {0..<sz}" for i by (rule inj_onI) simp
  have c: "inj_on (\<lambda>j. i + j * sz) {0..<sz}" for i using assms(2) by (auto intro!: inj_onI)
  have b1: "i < sz \<Longrightarrow> i * (sz + 1) < sz * sz" for i
    using row_bound[of i sz i] by (simp add: algebra_simps)
  have b2: "i < sz \<Longrightarrow> (i + 1) * (sz - 1) < sz * sz" for i
  proof -
    assume "i < sz"
    then have "(i + 1) * (sz - 1) \<le> sz * (sz - 1)" by (simp del: mult_Suc add: Suc_leI)
    also have "\<dots> < sz * sz" using assms(2) by simp
    finally show ?thesis .
  qed
  have bc: "i < sz \<Longrightarrow> j < sz \<Longrightarrow> i + j * sz < sz * sz" for i j
    using row_bound[of j sz i] by (simp add: algebra_simps)
  from assms(1) consider
      (row) i where "i < sz" "p = map (\<lambda>j. i * sz + j) [0..<sz]"
    | (col) i where "i < sz" "p = map (\<lambda>j. i + j * sz) [0..<sz]"
    | (diag1) "p = map (\<lambda>i. i * (sz + 1)) [0..<sz]"
    | (diag2) "p = map (\<lambda>i. (i + 1) * (sz - 1)) [0..<sz]"
    unfolding set_winPatterns by blast
  then show ?thesis
  proof cases
    case row
    show ?thesis unfolding row(2) by (rule map_pattern[OF r]) (rule row_bound[OF row(1)])
  next
    case col
    show ?thesis unfolding col(2) by (rule map_pattern[OF c]) (rule bc[OF col(1)])
  next
    case diag1
    show ?thesis unfolding diag1 by (rule map_pattern[OF d1]) (rule b1)
  next
    case diag2
    show ?thesis unfolding diag2 by (rule map_pattern[OF d2]) (rule b2)
  qed
qed

lemma getWinPatterns_twice:
  "fst (getWinPatterns (snd (getWinPatterns c sz)) sz) = fst (getWinPatterns c sz)
   \<and> snd (getWinPatterns (snd (getWinPatterns c sz)) sz) = snd (getWinPatterns c sz)"
  by (simp add: getWinPatterns_def Let_def split: option.splits)

lemma reachableCache_sound: "reachableCache c \<Longrightarrow> c k = Some ps \<Longrightarrow> ps = winPatterns k"
  by (induction arbitrary: k ps rule: reachableCache.induct)
     (auto simp: getWinPatterns_def Let_def split: option.splits if_splits)

lemma getWinPatterns_reachable: "reachableCache c \<Longrightarrow> fst (getWinPatterns c sz) = winPatterns sz"
  by (auto simp: getWinPatterns_def Let_def split: option.splits dest: reachableCache_sound)

lemma set_map_upt: "set (map f [0..<n]) = {f j | j. j < n}"
  by auto

lemma pattern_sets:
  "set (map set (winPatterns sz)) =
     (\<lambda>i. {i * sz + j | j. j < sz}) ` {..<sz} \<union> (\<lambda>i. {i + j * sz | j. j < sz}) ` {..<sz}
     \<union> {{i * (sz + 1) | i. i < sz}, {(i + 1) * (sz - 1) | i. i < sz}}"
proof -
  have "set (map set (winPatterns sz)) = set ` set (winPatterns sz)" by simp
  also have "\<dots> = (\<lambda>i. set (map (\<lambda>j. i * sz + j) [0..<sz])) ` {..<sz}
                  \<union> (\<lambda>i. set (map (\<lambda>j. i + j * sz) [0..<sz])) ` {..<sz}
                  \<union> {set (map (\<lambda>i. i * (sz + 1)) [0..<sz]), set (map (\<lambda>i. (i + 1) * (sz - 1)) [0..<sz])}"
    unfolding set_winPatterns by (simp only: image_Un image_image image_insert image_empty)
  finally show ?thesis unfolding set_map_upt .
qed

text \<open>
  Claim C8. For every size of at least 1 and every cache the program can hold,
  \<open>getWinPatterns\<close> returns exactly \<open>2 * size + 2\<close> patterns; as sets of indices
  they are the rows \<open>{i * size + j | j < size}\<close> and the columns
  \<open>{i + j * size | j < size}\<close> for \<open>i < size\<close> and the two diagonals
  \<open>{i * (size + 1) | i < size}\<close> and \<open>{(i + 1) * (size - 1) | i < size}\<close>; each
  pattern has exactly \<open>size\<close> distinct indices, all below \<open>size * size\<close>; and a second
  call for the same size, now served from the cache, returns the same patterns.
\<close>

theorem getWinPatterns_catalog:
  assumes "1 \<le> sz" and "reachableCache c"
  shows "length (fst (getWinPatterns c sz)) = 2 * sz + 2
    \<and> set (map set (fst (getWinPatterns c sz))) =
        (\<lambda>i. {i * sz + j | j. j < sz}) ` {..<sz} \<union> (\<lambda>i. {i + j * sz | j. j < sz}) ` {..<sz}
        \<union> {{i * (sz + 1) | i. i < sz}, {(i + 1) * (sz - 1) | i. i < sz}}
    \<and> (\<forall>p \<in> set (fst (getWinPatterns c sz)).
          length p = sz \<and> distinct p \<and> (\<forall>k \<in> set p. k < sz * sz))
    \<and> fst (getWinPatterns (snd (getWinPatterns c sz)) sz) = fst (getWinPatterns c sz)"
proof -
  have eq: "fst (getWinPatterns c sz) = winPatterns sz"
    by (rule getWinPatterns_reachable[OF assms(2)])
  show ?thesis
    unfolding eq
    using length_winPatterns[of sz] pattern_sets[of sz] pattern_props[OF _ assms(1)]
      getWinPatterns_twice[of c sz, unfolded eq]
    by blast
qed

text \<open>The catalog for size 3, from the empty cache.\<close>

theorem getWinPatterns_catalog_witness:
  "(1::nat) \<le> 3 \<and> reachableCache Map.empty
   \<and> length (fst (getWinPatterns Map.empty 3)) = 8
   \<and> list_all (\<lambda>p. length p = 3 \<and> distinct p \<and> list_all (\<lambda>k. k < 9) p)
         (fst (getWinPatterns Map.empty 3))
   \<and> fst (getWinPatterns (snd (getWinPatterns Map.empty 3)) 3) = fst (getWinPatterns Map.empty 3)"
  using getWinPatterns_catalog[of 3 Map.empty] reach_empty by (simp add: list_all_iff)

section \<open>Dead boards\<close>

lemma marksAdded_nth_opt:
  "marksAdded b b' \<Longrightarrow> nth_opt b i = Some ''X'' \<Longrightarrow> nth_opt b' i = Some ''X''"
  by (auto simp: marksAdded_def nth_opt_def list_all2_conv_all_nth split: if_splits)

lemma marksAdded_all:
  "list_all2 (\<lambda>c c'. c' = c \<or> (c = '''' \<and> c' = ''X'')) xs ys \<Longrightarrow> list_all (\<lambda>c. c = ''X'') xs
   \<Longrightarrow> list_all (\<lambda>c. c = ''X'') ys"
  by (induction rule: list_all2_induct) auto

lemma marksAdded_slice:
  "marksAdded b b' \<Longrightarrow> list_all (\<lambda>c. c = ''X'') (slice b i j) \<Longrightarrow> list_all (\<lambda>c. c = ''X'') (slice b' i j)"
  unfolding marksAdded_def slice_def
  by (rule marksAdded_all[OF list_all2_takeI[OF list_all2_dropI]])

lemma isBoardDead_mono: "marksAdded b b' \<Longrightarrow> isBoardDead b sz \<Longrightarrow> isBoardDead b' sz"
  unfolding isBoardDead_def list_ex_iff list_all_iff
  by (blast intro: marksAdded_nth_opt)

lemma isBoardDead_App_mono:
  assumes m: "marksAdded b b'" and d: "isBoardDead_App sz b"
  shows "isBoardDead_App sz b'"
proof -
  have opt: "list_all (\<lambda>c. c = Some ''X'') (map (\<lambda>j. nth_opt b (f j)) xs)
             \<Longrightarrow> list_all (\<lambda>c. c = Some ''X'') (map (\<lambda>j. nth_opt b' (f j)) xs)" for f xs
    using marksAdded_nth_opt[OF m] by (simp add: list_all_iff)
  have row: "list_all (\<lambda>c. c = ''X'') (slice b i j) \<Longrightarrow> list_all (\<lambda>c. c = ''X'') (slice b' i j)"
    for i j by (rule marksAdded_slice[OF m])
  note col = opt[of "\<lambda>j. i + j * sz" for i]
  note d1 = opt[of "\<lambda>i. i * (sz + 1)"]
  note d2 = opt[of "\<lambda>i. (i + 1) * (sz - 1)"]
  from d show ?thesis
    unfolding isBoardDead_App_def Let_def list_ex_iff
    using col d1 d2 row by blast
qed

text \<open>
  Claim C9. Dead-ness is monotonic under marking: if a board is dead, every board
  obtained from it by turning Empty cells into Marked ones is dead too. This holds
  of the check of the search module and of the check of the component.
\<close>

theorem isBoardDead_monotonic: 
  "marksAdded board board' \<Longrightarrow>
     (isBoardDead board sz \<longrightarrow> isBoardDead board' sz)
   \<and> (isBoardDead_App sz board \<longrightarrow> isBoardDead_App sz board')"
  using isBoardDead_mono isBoardDead_App_mono by blast

text \<open>A 3 by 3 board with its first row marked stays dead when the centre is marked.\<close>

theorem isBoardDead_monotonic_witness:
  "marksAdded [''X'', ''X'', ''X'', '''', '''', '''', '''', '''', '''']
              [''X'', ''X'', ''X'', '''', ''X'', '''', '''', '''', '''']
   \<and> isBoardDead [''X'', ''X'', ''X'', '''', '''', '''', '''', '''', ''''] 3
   \<and> isBoardDead_App 3 [''X'', ''X'', ''X'', '''', '''', '''', '''', '''', '''']
   \<and> isBoardDead [''X'', ''X'', ''X'', '''', ''X'', '''', '''', '''', ''''] 3
   \<and> isBoardDead_App 3 [''X'', ''X'', ''X'', '''', ''X'', '''', '''', '''', '''']"
proof -
  have m: "marksAdded [''X'', ''X'', ''X'', '''', '''', '''', '''', '''', '''']
              [''X'', ''X'', ''X'', '''', ''X'', '''', '''', '''', '''']"
    by code_simp
  have d: "isBoardDead [''X'', ''X'', ''X'', '''', '''', '''', '''', '''', ''''] 3"
    by code_simp
  have a: "isBoardDead_App 3 [''X'', ''X'', ''X'', '''', '''', '''', '''', '''', '''']"
    by code_simp
  from isBoardDead_monotonic[OF m, of 3] m d a show ?thesis by blast
qed

text \<open>
  On a board of the configured length the check of the component and the check of the
  search module agree.
\<close>

lemma list_ex_catalog:
  "list_ex Q (concat (map (\<lambda>i. [r i, c i]) [0..<n]) @ [d1, d2])
   = ((\<exists>i<n. Q (r i)) \<or> (\<exists>i<n. Q (c i)) \<or> Q d1 \<or> Q d2)"
  by (auto simp: list_ex_iff)

lemma list_all_map_upt: "list_all P (map f [0..<n]) = (\<forall>j<n. P (f j))"
  by (auto simp: list_all_iff)

lemma list_ex_upt: "list_ex P [0..<n] = (\<exists>i<n. P i)"
  by (auto simp: list_ex_iff)

lemma isBoardDead_alt:
  "isBoardDead b sz =
     ((\<exists>i<sz. \<forall>j<sz. nth_opt b (i * sz + j) = Some ''X'')
      \<or> (\<exists>i<sz. \<forall>j<sz. nth_opt b (i + j * sz) = Some ''X'')
      \<or> (\<forall>i<sz. nth_opt b (i * (sz + 1)) = Some ''X'')
      \<or> (\<forall>i<sz. nth_opt b ((i + 1) * (sz - 1)) = Some ''X''))"
  by (simp only: isBoardDead_def winPatterns_def list_ex_catalog list_all_map_upt)

lemma row_slice:
  assumes len: "length b = sz * sz" and i: "i < sz"
  shows "list_all (\<lambda>c. c = ''X'') (slice b (i * sz) ((i + 1) * sz))
         = (\<forall>j<sz. nth_opt b (i * sz + j) = Some ''X'')"
proof -
  have s: "slice b (i * sz) ((i + 1) * sz) = take sz (drop (i * sz) b)"
    by (simp add: slice_def)
  have "(i + 1) * sz \<le> sz * sz" using i by (simp del: mult_Suc add: Suc_leI)
  then have le: "i * sz + sz \<le> length b" using len by simp
  then have l: "length (take sz (drop (i * sz) b)) = sz" by simp
  have n: "take sz (drop (i * sz) b) ! j = b ! (i * sz + j)" if "j < sz" for j
    using that le by simp
  have o: "nth_opt b (i * sz + j) = Some (b ! (i * sz + j))" if "j < sz" for j
    using that le by (simp add: nth_opt_def)
  have "list_all (\<lambda>c. c = ''X'') (take sz (drop (i * sz) b))
        = (\<forall>j<sz. take sz (drop (i * sz) b) ! j = ''X'')"
    unfolding list_all_length l ..
  also have "\<dots> = (\<forall>j<sz. nth_opt b (i * sz + j) = Some ''X'')"
    using n o by simp
  finally show ?thesis unfolding s .
qed

lemma isBoardDead_App_alt:
  "isBoardDead_App sz b =
     ((\<exists>i<sz. list_all (\<lambda>c. c = ''X'') (slice b (i * sz) ((i + 1) * sz))
              \<or> (\<forall>j<sz. nth_opt b (i + j * sz) = Some ''X''))
      \<or> (\<forall>i<sz. nth_opt b (i * (sz + 1)) = Some ''X'')
      \<or> (\<forall>i<sz. nth_opt b ((i + 1) * (sz - 1)) = Some ''X''))"
  by (simp only: isBoardDead_App_def Let_def list_ex_upt list_all_map_upt)

lemma isBoardDead_App_eq:
  assumes "length b = sz * sz"
  shows "isBoardDead_App sz b = isBoardDead b sz"
proof -
  have "(\<exists>i<sz. list_all (\<lambda>c. c = ''X'') (slice b (i * sz) ((i + 1) * sz))
              \<or> (\<forall>j<sz. nth_opt b (i + j * sz) = Some ''X''))
        = ((\<exists>i<sz. \<forall>j<sz. nth_opt b (i * sz + j) = Some ''X'')
           \<or> (\<exists>i<sz. \<forall>j<sz. nth_opt b (i + j * sz) = Some ''X''))"
    using row_slice[OF assms] by blast
  then show ?thesis
    unfolding isBoardDead_App_alt isBoardDead_alt by (simp only: disj_assoc)
qed

section \<open>Heuristic score\<close>

lemma fold_count: "fold (\<lambda>i n. if P i then n + 1 else n) xs (a::int) = a + int (length (filter P xs))"
  by (induction xs arbitrary: a) auto

lemma xCount_markedCount: "xCount board pattern = markedCount board pattern"
  by (simp add: xCount_def markedCount_def fold_count)

lemma scanPatterns_eq:
  "scanPatterns board k ps acc =
     acc + (if list_ex (\<lambda>p. markedCount board p = k) ps then - 10 else 0)
         - int (length (filter (\<lambda>p. markedCount board p = k - 1)
                          (takeWhile (\<lambda>p. markedCount board p \<noteq> k) ps)))"
  by (induction ps arbitrary: acc) (auto simp: xCount_markedCount Let_def)

lemma fold_sum: "fold (\<lambda>b s. if D b then s else s + g b) bs (a::int) = a + sum_list (map (\<lambda>b. if D b then 0 else g b) bs)"
  by (induction bs arbitrary: a) auto

text \<open>
  Claim C7. For every board set and size the heuristic score is the sum over the
  boards of the per-board contribution: a dead board contributes 0; a board that is
  not dead is scanned in catalog order, every pattern with exactly \<open>size - 2\<close> marks
  before the first pattern with exactly \<open>size - 1\<close> marks subtracts 1, and that first
  pattern subtracts 10 and ends the scan.
\<close>

theorem heuristic_sum_of_contributions: "heuristic bs sz = sum_list (map (\<lambda>board. boardContribution board sz) bs)"
proof -
  have "(\<lambda>b. if isBoardDead b sz then 0 else scanPatterns b (int sz - 1) (winPatterns sz) 0)
        = (\<lambda>board. boardContribution board sz)"
    by (rule ext) (simp add: boardContribution_def scanPatterns_eq Let_def)
  then show ?thesis
    by (simp add: heuristic_def Let_def fold_sum)
qed

section \<open>Valid moves\<close>

lemma set_collectMoves: "set (collectMoves bs sz) = {m. legalMove bs sz m}"
proof (rule set_eqI)
  fix m
  obtain bi ci where m: "m = Move bi ci" by (cases m)
  show "m \<in> set (collectMoves bs sz) \<longleftrightarrow> m \<in> {m. legalMove bs sz m}"
    unfolding m by (auto simp: collectMoves_def legalMove_def nth_opt_def Let_def split: if_splits)
qed

lemma set_getValidMoves: "set (getValidMoves bs sz) = {m. legalMove bs sz m}"
  by (simp add: getValidMoves_def set_collectMoves)

lemma getValidMoves_in_range:
  assumes "m \<in> set (getValidMoves bs sz)"
  shows "boardIndex m < length bs \<and> cellIndex m < length (bs ! boardIndex m)"
  using assms unfolding set_getValidMoves legalMove_def nth_opt_def
  by (auto split: if_splits)

lemma no_legal_iff:
  "(getValidMoves bs sz = []) = list_all (\<lambda>board. isBoardDead board sz \<or> '''' \<notin> set board) bs"
proof -
  have "(getValidMoves bs sz = []) = (\<forall>m. \<not> legalMove bs sz m)"
    using set_getValidMoves[of bs sz] by auto
  also have "\<dots> = (\<forall>bi ci. \<not> legalMove bs sz (Move bi ci))"
    by (metis move.exhaust)
  also have "\<dots> = list_all (\<lambda>board. isBoardDead board sz \<or> '''' \<notin> set board) bs"
    by (simp add: legalMove_def nth_opt_def list_all_length in_set_conv_nth)
  finally show ?thesis .
qed

section \<open>Minimax with and without pruning\<close>

lemma NegInf_least [simp]: "NegInf \<le> (x::jsnum)"
  by simp

lemma PosInf_greatest [simp]: "(x::jsnum) \<le> PosInf"
  by (cases x) simp_all

lemma NegInf_less_PosInf: "NegInf < PosInf"
  by (simp add: less_jsnum_def)

lemma fishburn_full: "fishburn NegInf PosInf v r \<Longrightarrow> r = v"
proof -
  assume f: "fishburn NegInf PosInf v r"
  show ?thesis
  proof (cases r)
    case NegInf
    with f have "v \<le> NegInf" by (simp add: fishburn_def)
    then show ?thesis using NegInf by (cases v) simp_all
  next
    case (Fin i)
    then have "NegInf < r \<and> r < PosInf" by (simp add: less_jsnum_def)
    with f show ?thesis by (simp add: fishburn_def)
  next
    case PosInf
    with f have "PosInf \<le> v" by (simp add: fishburn_def)
    then show ?thesis using PosInf by (cases v) simp_all
  qed
qed

lemma fold_max_acc:
  "fold (\<lambda>m acc. max acc (g m)) ms (a::jsnum) = max a (fold (\<lambda>m acc. max acc (g m)) ms NegInf)"
proof (induction ms arbitrary: a)
  case Nil then show ?case by (simp add: max_absorb1)
next
  case (Cons m ms)
  have "fold (\<lambda>m acc. max acc (g m)) (m # ms) a = max (max a (g m)) (fold (\<lambda>m acc. max acc (g m)) ms NegInf)"
    using Cons.IH[of "max a (g m)"] by simp
  also have "\<dots> = max a (max (g m) (fold (\<lambda>m acc. max acc (g m)) ms NegInf))"
    by (simp add: max.assoc)
  also have "max (g m) (fold (\<lambda>m acc. max acc (g m)) ms NegInf) = fold (\<lambda>m acc. max acc (g m)) (m # ms) NegInf"
    using Cons.IH[of "max NegInf (g m)"] by (simp add: max_absorb2)
  finally show ?case .
qed

lemma fold_min_acc:
  "fold (\<lambda>m acc. min acc (g m)) ms (a::jsnum) = min a (fold (\<lambda>m acc. min acc (g m)) ms PosInf)"
proof (induction ms arbitrary: a)
  case Nil then show ?case by (simp add: min_absorb1)
next
  case (Cons m ms)
  have "fold (\<lambda>m acc. min acc (g m)) (m # ms) a = min (min a (g m)) (fold (\<lambda>m acc. min acc (g m)) ms PosInf)"
    using Cons.IH[of "min a (g m)"] by simp
  also have "\<dots> = min a (min (g m) (fold (\<lambda>m acc. min acc (g m)) ms PosInf))"
    by (simp add: min.assoc)
  also have "min (g m) (fold (\<lambda>m acc. min acc (g m)) ms PosInf) = fold (\<lambda>m acc. min acc (g m)) (m # ms) PosInf"
    using Cons.IH[of "min PosInf (g m)"] by (simp add: min_absorb2)
  finally show ?case .
qed



lemma max_cut:
  fixes a b best v pvc M :: "'a::linorder"
  assumes "a < b" "best \<le> a"
    and "(v \<le> a \<longrightarrow> pvc \<le> v) \<and> (a < v \<and> v < b \<longrightarrow> v = pvc) \<and> (b \<le> v \<longrightarrow> v \<le> pvc)"
    and "b \<le> max a v"
  shows "(max best v \<le> a \<longrightarrow> max (max best pvc) M \<le> max best v)
       \<and> (a < max best v \<and> max best v < b \<longrightarrow> max best v = max (max best pvc) M)
       \<and> (b \<le> max best v \<longrightarrow> max best v \<le> max (max best pvc) M)"
proof -
  from assms(1,4) have bv: "b \<le> v" by (simp add: max_def split: if_splits)
  with assms(3) have "v \<le> pvc" by simp
  moreover from bv assms(1,2) have "best \<le> v" by order
  then have "max best v = v" by (rule max_absorb2)
  ultimately show ?thesis using bv assms(1) by (auto simp: le_max_iff_disj)
qed

lemma max_step:
  fixes a b best v pvc M r :: "'a::linorder"
  assumes ab: "a < b" and ba: "best \<le> a"
    and f: "(v \<le> a \<longrightarrow> pvc \<le> v) \<and> (a < v \<and> v < b \<longrightarrow> v = pvc) \<and> (b \<le> v \<longrightarrow> v \<le> pvc)"
    and nc: "\<not> b \<le> max a v"
    and ih: "(r \<le> max a v \<longrightarrow> max (max best v) M \<le> r) \<and> (max a v < r \<and> r < b \<longrightarrow> r = max (max best v) M)
         \<and> (b \<le> r \<longrightarrow> r \<le> max (max best v) M)"
  shows "(r \<le> a \<longrightarrow> max (max best pvc) M \<le> r) \<and> (a < r \<and> r < b \<longrightarrow> r = max (max best pvc) M)
         \<and> (b \<le> r \<longrightarrow> r \<le> max (max best pvc) M)"
proof (cases "v \<le> a")
  case True
  then have m: "max a v = a" by (simp add: max_def)
  from True f have pv: "pvc \<le> v" by simp
  have le: "max (max best pvc) M \<le> max (max best v) M"
    by (intro max.mono order_refl pv)
  have eq: "max (max best pvc) M = max (max best v) M" if "a < max (max best v) M"
  proof -
    have x: "max best v \<le> a" using True ba by simp
    have "pvc \<le> a" using pv True by order
    then have y: "max best pvc \<le> a" using ba by simp
    from that x have "a < M" by (auto simp: less_max_iff_disj)
    with x y have "max best v \<le> M" "max best pvc \<le> M" by order+
    then show ?thesis by (simp add: max_absorb2)
  qed
  show ?thesis
  proof (intro conjI impI)
    assume "r \<le> a"
    with ih m have "max (max best v) M \<le> r" by metis
    with le show "max (max best pvc) M \<le> r" by order
  next
    assume h: "a < r \<and> r < b"
    with ih m have "r = max (max best v) M" by metis
    with eq h show "r = max (max best pvc) M" by metis
  next
    assume "b \<le> r"
    with ih have 1: "r \<le> max (max best v) M" by metis
    from this \<open>b \<le> r\<close> ab have "a < max (max best v) M" by order
    with 1 eq show "r \<le> max (max best pvc) M" by metis
  qed
next
  case False
  then have av: "a < v" by simp
  have vb: "v < b"
  proof (rule ccontr)
    assume "\<not> v < b"
    then have "b \<le> v" by simp
    then have "b \<le> max a v" by (simp add: le_max_iff_disj)
    with nc show False by simp
  qed
  from av vb f have vp: "v = pvc" by metis
  from av have m: "max a v = v" by (simp add: max_absorb2)
  from av ba have "best \<le> v" by order
  then have bm: "max best v = v" by (rule max_absorb2)
  have vle: "v \<le> max v M" by simp
  note ih' = ih[unfolded m bm]
  show ?thesis unfolding vp[symmetric] bm
  proof (intro conjI impI)
    assume "r \<le> a"
    with av have "r \<le> v" by order
    with ih' show "max v M \<le> r" by metis
  next
    assume h: "a < r \<and> r < b"
    show "r = max v M"
    proof (cases "r \<le> v")
      case True
      with ih' have "max v M \<le> r" by metis
      with True vle show ?thesis by order
    next
      case False
      then have "v < r" by simp
      with h ih' show ?thesis by metis
    qed
  next
    assume "b \<le> r"
    with ih' show "r \<le> max v M" by metis
  qed
qed



lemma min_cut:
  fixes a b best v pvc M :: "'a::linorder"
  assumes ab: "a < b" and bb: "b \<le> best"
    and f: "(v \<le> a \<longrightarrow> pvc \<le> v) \<and> (a < v \<and> v < b \<longrightarrow> v = pvc) \<and> (b \<le> v \<longrightarrow> v \<le> pvc)"
    and cut: "min b v \<le> a"
  shows "(min best v \<le> a \<longrightarrow> min (min best pvc) M \<le> min best v)
       \<and> (a < min best v \<and> min best v < b \<longrightarrow> min best v = min (min best pvc) M)
       \<and> (b \<le> min best v \<longrightarrow> min best v \<le> min (min best pvc) M)"
proof -
  have va: "v \<le> a"
  proof (rule ccontr)
    assume "\<not> v \<le> a"
    with ab have "a < min b v" by simp
    with cut show False by order
  qed
  with f have pv: "pvc \<le> v" by metis
  from va ab bb have "v \<le> best" by order
  then have bm: "min best v = v" by (rule min_absorb2)
  have "min (min best pvc) M \<le> pvc" by (simp add: min_le_iff_disj)
  with pv have 1: "min (min best pvc) M \<le> v" by order
  from va ab have 2: "\<not> a < v" "\<not> b \<le> v" by order+
  show ?thesis unfolding bm using 1 2 by blast
qed

lemma min_step:
  fixes a b best v pvc M r :: "'a::linorder"
  assumes ab: "a < b" and bb: "b \<le> best"
    and f: "(v \<le> a \<longrightarrow> pvc \<le> v) \<and> (a < v \<and> v < b \<longrightarrow> v = pvc) \<and> (b \<le> v \<longrightarrow> v \<le> pvc)"
    and nc: "\<not> min b v \<le> a"
    and ih: "(r \<le> a \<longrightarrow> min (min best v) M \<le> r) \<and> (a < r \<and> r < min b v \<longrightarrow> r = min (min best v) M)
         \<and> (min b v \<le> r \<longrightarrow> r \<le> min (min best v) M)"
  shows "(r \<le> a \<longrightarrow> min (min best pvc) M \<le> r) \<and> (a < r \<and> r < b \<longrightarrow> r = min (min best pvc) M)
         \<and> (b \<le> r \<longrightarrow> r \<le> min (min best pvc) M)"
proof (cases "b \<le> v")
  case True
  then have m: "min b v = b" by (simp add: min_absorb1)
  from True f have pv: "v \<le> pvc" by metis
  have ge: "min (min best v) M \<le> min (min best pvc) M"
    by (intro min.mono order_refl pv)
  have eq: "min (min best pvc) M = min (min best v) M" if "min (min best v) M < b"
  proof -
    have x: "b \<le> min best v" using True bb by simp
    have "b \<le> pvc" using pv True by order
    then have y: "b \<le> min best pvc" using bb by simp
    from that x have "M < b" by (auto simp: min_less_iff_disj)
    with x y have "M \<le> min best v" "M \<le> min best pvc" by order+
    then show ?thesis by (simp add: min_absorb2)
  qed
  note ih' = ih[unfolded m]
  show ?thesis
  proof (intro conjI impI)
    assume ra: "r \<le> a"
    with ih' have 1: "min (min best v) M \<le> r" by metis
    from 1 ra ab have "min (min best v) M < b" by order
    with 1 eq show "min (min best pvc) M \<le> r" by metis
  next
    assume h: "a < r \<and> r < b"
    with ih' have 1: "r = min (min best v) M" by metis
    with h have "min (min best v) M < b" by metis
    with 1 eq show "r = min (min best pvc) M" by metis
  next
    assume "b \<le> r"
    with ih' have "r \<le> min (min best v) M" by metis
    with ge show "r \<le> min (min best pvc) M" by order
  qed
next
  case False
  then have vb: "v < b" by simp
  then have m: "min b v = v" by (simp add: min_absorb2)
  from nc m have av: "a < v" by simp
  from av vb f have vp: "v = pvc" by metis
  from vb bb have "v \<le> best" by order
  then have bm: "min best v = v" by (rule min_absorb2)
  have vle: "min v M \<le> v" by simp
  note ih' = ih[unfolded m bm]
  show ?thesis unfolding vp[symmetric] bm
  proof (intro conjI impI)
    assume "r \<le> a"
    with ih' show "min v M \<le> r" by metis
  next
    assume h: "a < r \<and> r < b"
    show "r = min v M"
    proof (cases "r < v")
      case True
      with h ih' show ?thesis by metis
    next
      case False
      then have "v \<le> r" by simp
      with ih' have "r \<le> min v M" by metis
      with \<open>v \<le> r\<close> vle show ?thesis by order
    qed
  next
    assume "b \<le> r"
    with vb have "v \<le> r" by order
    with ih' show "r \<le> min v M" by metis
  qed
qed


lemma fishburn_refl: "fishburn a b v v"
  by (simp add: fishburn_def)

lemma minimax_loop_max:
  assumes ev: "\<And>nb a b. a < b \<Longrightarrow> fishburn a b (pv nb) (ev nb a b)"
  shows "\<alpha> < \<beta> \<Longrightarrow> best \<le> \<alpha> \<Longrightarrow>
         fishburn \<alpha> \<beta> (fold (\<lambda>m acc. max acc (pv (updateBoards bs m))) ms best)
                      (minimax_loop ev True bs ms best \<alpha> \<beta>)"
proof (induction ms arbitrary: best \<alpha> \<beta>)
  case Nil
  show ?case by (simp add: fishburn_refl)
next
  case (Cons m ms)
  let ?v = "ev (updateBoards bs m) \<alpha> \<beta>"
  let ?pvc = "pv (updateBoards bs m)"
  let ?F = "fold (\<lambda>m acc. max acc (pv (updateBoards bs m))) ms"
  have f: "(?v \<le> \<alpha> \<longrightarrow> ?pvc \<le> ?v) \<and> (\<alpha> < ?v \<and> ?v < \<beta> \<longrightarrow> ?v = ?pvc) \<and> (\<beta> \<le> ?v \<longrightarrow> ?v \<le> ?pvc)"
    using ev[OF Cons.prems(1), of "updateBoards bs m"] by (simp add: fishburn_def)
  have V: "fold (\<lambda>m acc. max acc (pv (updateBoards bs m))) (m # ms) best = max (max best ?pvc) (?F NegInf)"
    using fold_max_acc[of "\<lambda>m. pv (updateBoards bs m)" ms "max best ?pvc"] by simp
  show ?case
  proof (cases "\<beta> \<le> max \<alpha> ?v")
    case True
    then have r: "minimax_loop ev True bs (m # ms) best \<alpha> \<beta> = max best ?v"
      by (simp add: Let_def)
    show ?thesis unfolding r V fishburn_def
      by (rule max_cut[OF Cons.prems(1) Cons.prems(2) f True])
  next
    case False
    then have r: "minimax_loop ev True bs (m # ms) best \<alpha> \<beta>
                  = minimax_loop ev True bs ms (max best ?v) (max \<alpha> ?v) \<beta>"
      by (simp add: Let_def)
    from False have lt: "max \<alpha> ?v < \<beta>" by (simp only: not_le)
    have le: "max best ?v \<le> max \<alpha> ?v"
      by (intro max.mono order_refl Cons.prems(2))
    have ih: "fishburn (max \<alpha> ?v) \<beta> (max (max best ?v) (?F NegInf))
                (minimax_loop ev True bs ms (max best ?v) (max \<alpha> ?v) \<beta>)"
      using Cons.IH[OF lt le] fold_max_acc[of "\<lambda>m. pv (updateBoards bs m)" ms "max best ?v"]
      by simp
    show ?thesis unfolding r V fishburn_def
      by (rule max_step[OF Cons.prems(1) Cons.prems(2) f False ih[unfolded fishburn_def]])
  qed
qed

lemma minimax_loop_min:
  assumes ev: "\<And>nb a b. a < b \<Longrightarrow> fishburn a b (pv nb) (ev nb a b)"
  shows "\<alpha> < \<beta> \<Longrightarrow> \<beta> \<le> best \<Longrightarrow>
         fishburn \<alpha> \<beta> (fold (\<lambda>m acc. min acc (pv (updateBoards bs m))) ms best)
                      (minimax_loop ev False bs ms best \<alpha> \<beta>)"
proof (induction ms arbitrary: best \<alpha> \<beta>)
  case Nil
  show ?case by (simp add: fishburn_refl)
next
  case (Cons m ms)
  let ?v = "ev (updateBoards bs m) \<alpha> \<beta>"
  let ?pvc = "pv (updateBoards bs m)"
  let ?F = "fold (\<lambda>m acc. min acc (pv (updateBoards bs m))) ms"
  have f: "(?v \<le> \<alpha> \<longrightarrow> ?pvc \<le> ?v) \<and> (\<alpha> < ?v \<and> ?v < \<beta> \<longrightarrow> ?v = ?pvc) \<and> (\<beta> \<le> ?v \<longrightarrow> ?v \<le> ?pvc)"
    using ev[OF Cons.prems(1), of "updateBoards bs m"] by (simp add: fishburn_def)
  have V: "fold (\<lambda>m acc. min acc (pv (updateBoards bs m))) (m # ms) best = min (min best ?pvc) (?F PosInf)"
    using fold_min_acc[of "\<lambda>m. pv (updateBoards bs m)" ms "min best ?pvc"] by simp
  show ?case
  proof (cases "min \<beta> ?v \<le> \<alpha>")
    case True
    then have r: "minimax_loop ev False bs (m # ms) best \<alpha> \<beta> = min best ?v"
      by (simp add: Let_def)
    show ?thesis unfolding r V fishburn_def
      by (rule min_cut[OF Cons.prems(1) Cons.prems(2) f True])
  next
    case False
    then have r: "minimax_loop ev False bs (m # ms) best \<alpha> \<beta>
                  = minimax_loop ev False bs ms (min best ?v) \<alpha> (min \<beta> ?v)"
      by (simp add: Let_def)
    from False have lt: "\<alpha> < min \<beta> ?v" by (simp only: not_le)
    have le: "min \<beta> ?v \<le> min best ?v"
      by (intro min.mono order_refl Cons.prems(2))
    have ih: "fishburn \<alpha> (min \<beta> ?v) (min (min best ?v) (?F PosInf))
                (minimax_loop ev False bs ms (min best ?v) \<alpha> (min \<beta> ?v))"
      using Cons.IH[OF lt le] fold_min_acc[of "\<lambda>m. pv (updateBoards bs m)" ms "min best ?v"]
      by simp
    show ?thesis unfolding r V fishburn_def
      by (rule min_step[OF Cons.prems(1) Cons.prems(2) f False ih[unfolded fishburn_def]])
  qed
qed

lemma minimax_fishburn:
  "\<alpha> < \<beta> \<Longrightarrow> fishburn \<alpha> \<beta> (plainMinimax bs depth isMax sz) (minimax bs depth isMax sz \<alpha> \<beta>)"
proof (induction depth arbitrary: bs isMax \<alpha> \<beta>)
  case 0
  have "minimax bs 0 isMax sz \<alpha> \<beta> = plainMinimax bs 0 isMax sz"
    by (subst minimax.simps, subst plainMinimax.simps) simp
  then show ?case by (simp add: fishburn_refl)
next
  case (Suc d)
  show ?case
  proof (cases "list_all (\<lambda>board. isBoardDead board sz) bs")
    case True
    then have "minimax bs (Suc d) isMax sz \<alpha> \<beta> = plainMinimax bs (Suc d) isMax sz"
      by (subst minimax.simps, subst plainMinimax.simps) simp
    then show ?thesis by (simp add: fishburn_refl)
  next
    case False
    show ?thesis
    proof (cases isMax)
      case True
      have m: "minimax bs (Suc d) isMax sz \<alpha> \<beta>
               = minimax_loop (\<lambda>nb a b. minimax nb d False sz a b) True bs (getValidMoves bs sz) NegInf \<alpha> \<beta>"
        using False True by (subst minimax.simps) simp
      have p: "plainMinimax bs (Suc d) isMax sz
               = fold (\<lambda>m acc. max acc (plainMinimax (updateBoards bs m) d False sz)) (getValidMoves bs sz) NegInf"
        using False True by (subst plainMinimax.simps) (simp add: Let_def)
      show ?thesis unfolding m p
        by (rule minimax_loop_max[OF Suc.IH Suc.prems]) simp_all
    next
      case F: False
      have m: "minimax bs (Suc d) isMax sz \<alpha> \<beta>
               = minimax_loop (\<lambda>nb a b. minimax nb d True sz a b) False bs (getValidMoves bs sz) PosInf \<alpha> \<beta>"
        using False F by (subst minimax.simps) simp
      have p: "plainMinimax bs (Suc d) isMax sz
               = fold (\<lambda>m acc. min acc (plainMinimax (updateBoards bs m) d True sz)) (getValidMoves bs sz) PosInf"
        using False F by (subst plainMinimax.simps) (simp add: Let_def)
      show ?thesis unfolding m p
        by (rule minimax_loop_min[OF Suc.IH Suc.prems]) simp_all
    qed
  qed
qed

text \<open>
  Claim C6. For every board set, depth, maximizing flag and size, \<open>minimax\<close> called
  with the full window, alpha minus infinity and beta plus infinity, returns the value
  of plain minimax without pruning.
\<close>

theorem minimax_alpha_beta_eq_plain: "minimax bs depth isMaximizing sz NegInf PosInf = plainMinimax bs depth isMaximizing sz"
  by (rule fishburn_full[OF minimax_fishburn[OF NegInf_less_PosInf]])

text \<open>
  Claim C5. For every board set, depth, maximizing flag and window: if every board
  is dead, \<open>minimax\<close> returns minus infinity when maximizing and plus infinity
  otherwise, whatever the depth and the window (the test is the first branch of the
  function, before the heuristic and the move generation); if some board is not dead
  and the depth is 0, it returns the heuristic score of the board set.
\<close>

theorem minimax_terminal_and_cutoff:
  "(list_all (\<lambda>board. isBoardDead board sz) bs \<longrightarrow>
      minimax bs depth isMaximizing sz alpha beta = (if isMaximizing then NegInf else PosInf))
   \<and> (\<not> list_all (\<lambda>board. isBoardDead board sz) bs \<longrightarrow>
      minimax bs 0 isMaximizing sz alpha beta = Fin (heuristic bs sz))"
proof (intro conjI impI)
  assume "list_all (\<lambda>board. isBoardDead board sz) bs"
  then show "minimax bs depth isMaximizing sz alpha beta = (if isMaximizing then NegInf else PosInf)"
    by (subst minimax.simps) simp
next
  assume "\<not> list_all (\<lambda>board. isBoardDead board sz) bs"
  then show "minimax bs 0 isMaximizing sz alpha beta = Fin (heuristic bs sz)"
    by (subst minimax.simps) simp
qed

text \<open>A dead 1 by 1 board, for both players, and the empty 1 by 1 board at depth 0.\<close>

theorem minimax_terminal_and_cutoff_witness:
  "minimax [[''X'']] 2 True 1 (Fin 0) (Fin 5) = NegInf
   \<and> minimax [[''X'']] 2 False 1 (Fin 0) (Fin 5) = PosInf
   \<and> minimax [['''']] 0 False 1 NegInf PosInf = Fin (heuristic [['''']] 1)
   \<and> heuristic [['''']] 1 = - 10"
proof -
  have 1: "list_all (\<lambda>board. isBoardDead board 1) [[''X'']]" by code_simp
  have 2: "\<not> list_all (\<lambda>board. isBoardDead board 1) [['''']]" by code_simp
  have 3: "heuristic [['''']] 1 = - 10" by code_simp
  show ?thesis
    using minimax_terminal_and_cutoff[of 1 "[[''X'']]" 2 True "Fin 0" "Fin 5"]
      minimax_terminal_and_cutoff[of 1 "[[''X'']]" 2 False "Fin 0" "Fin 5"]
      minimax_terminal_and_cutoff[of 1 "[['''']]" 0 False NegInf PosInf] 1 2 3
    by simp
qed

section \<open>Choice of the best move\<close>

lemma best_filter:
  assumes "\<forall>m \<in> set P. sc m \<le> (b::jsnum)" "P \<noteq> [] \<longrightarrow> (\<exists>m \<in> set P. sc m = b)"
  shows "filter (\<lambda>m. sc m = b) P = filter (\<lambda>m. list_all (\<lambda>m'. sc m' \<le> sc m) P) P"
proof (rule filter_cong[OF refl])
  fix m assume m: "m \<in> set P"
  with assms(2) obtain m0 where m0: "m0 \<in> set P" "sc m0 = b" by auto
  show "(sc m = b) = list_all (\<lambda>m'. sc m' \<le> sc m) P"
    using assms(1) m m0 by (auto simp: list_all_iff intro: antisym)
qed

lemma findBestMove_loop_inv:
  assumes "\<forall>m \<in> set P. moveScore bs d sz m \<le> bestScore"
    and "bestMoves = filter (\<lambda>m. moveScore bs d sz m = bestScore) P"
    and "P \<noteq> [] \<longrightarrow> (\<exists>m \<in> set P. moveScore bs d sz m = bestScore)"
    and "P = [] \<longrightarrow> bestScore = NegInf"
  shows "findBestMove_loop bs d sz ms bestScore bestMoves =
           filter (\<lambda>m. list_all (\<lambda>m'. moveScore bs d sz m' \<le> moveScore bs d sz m)
                          (P @ evaluatedMoves (moveScore bs d sz) ms))
                  (P @ evaluatedMoves (moveScore bs d sz) ms)"
  using assms
proof (induction ms arbitrary: P bestScore bestMoves)
  case Nil
  then show ?case using best_filter[of P "moveScore bs d sz" bestScore] by simp
next
  case (Cons m ms)
  let ?sc = "moveScore bs d sz"
  let ?b' = "if ?sc m > bestScore then ?sc m else bestScore"
  let ?bm' = "if ?sc m > bestScore then [m]
              else if ?sc m = bestScore then bestMoves @ [m] else bestMoves"
  have neg: "NegInf \<le> x" for x :: jsnum by simp
  have i1: "\<forall>x \<in> set (P @ [m]). ?sc x \<le> ?b'"
    using Cons.prems(1) by (auto simp: not_less) 
  have i2: "?bm' = filter (\<lambda>x. ?sc x = ?b') (P @ [m])"
    using Cons.prems(1,2) by (auto simp: filter_empty_conv)
  have i3: "P @ [m] \<noteq> [] \<longrightarrow> (\<exists>x \<in> set (P @ [m]). ?sc x = ?b')"
  proof (cases "P = []")
    case True
    with Cons.prems(4) have "bestScore = NegInf" by simp
    then have "?sc m \<ge> bestScore" by simp
    then show ?thesis by auto
  next
    case False
    with Cons.prems(3) show ?thesis by auto
  qed
  have i4: "P @ [m] = [] \<longrightarrow> ?b' = NegInf" by simp
  show ?case
  proof (cases "?sc m = PosInf")
    case True
    have "findBestMove_loop bs d sz (m # ms) bestScore bestMoves = ?bm'"
      using True by (simp add: moveScore_def Let_def)
    also have "\<dots> = filter (\<lambda>x. ?sc x = ?b') (P @ [m])" by (rule i2)
    also have "\<dots> = filter (\<lambda>x. list_all (\<lambda>m'. ?sc m' \<le> ?sc x) (P @ [m])) (P @ [m])"
      by (rule best_filter[OF i1 i3])
    finally show ?thesis using True by simp
  next
    case False
    have "findBestMove_loop bs d sz (m # ms) bestScore bestMoves
          = findBestMove_loop bs d sz ms ?b' ?bm'"
      using False by (simp add: moveScore_def Let_def)
    also have "\<dots> = filter (\<lambda>x. list_all (\<lambda>m'. ?sc m' \<le> ?sc x)
                          ((P @ [m]) @ evaluatedMoves ?sc ms))
                  ((P @ [m]) @ evaluatedMoves ?sc ms)"
      by (rule Cons.IH[OF i1 i2 i3 i4])
    finally show ?thesis using False by simp
  qed
qed

lemma findBestMove_loop_tiedBest:
  "findBestMove_loop bs d sz ms NegInf [] = tiedBest (moveScore bs d sz) ms"
  using findBestMove_loop_inv[of "[]" bs d sz NegInf "[]" ms]
  by (simp add: tiedBest_def Let_def)

lemma evaluatedMoves_subset: "set (evaluatedMoves sc ms) \<subseteq> set ms"
  by (induction ms) auto

lemma evaluatedMoves_nonempty: "ms \<noteq> [] \<Longrightarrow> evaluatedMoves sc ms \<noteq> []"
  by (cases ms) auto

lemma tiedBest_subset: "set (tiedBest sc ms) \<subseteq> set ms"
  using evaluatedMoves_subset[of sc ms] by (auto simp: tiedBest_def Let_def)

lemma max_attained: "xs \<noteq> [] \<Longrightarrow> \<exists>m \<in> set xs. \<forall>m' \<in> set xs. (f m' :: jsnum) \<le> f m"
proof (induction xs)
  case Nil then show ?case by simp
next
  case (Cons a xs)
  show ?case
  proof (cases "xs = []")
    case True then show ?thesis by simp
  next
    case False
    with Cons.IH obtain m where m: "m \<in> set xs" "\<forall>m' \<in> set xs. f m' \<le> f m" by auto
    show ?thesis
    proof (cases "f a \<le> f m")
      case True with m show ?thesis by auto
    next
      case False
      then have "f m \<le> f a" by simp
      with m have "\<forall>m' \<in> set (a # xs). f m' \<le> f a" by auto
      then show ?thesis by auto
    qed
  qed
qed

lemma tiedBest_nonempty: "ms \<noteq> [] \<Longrightarrow> tiedBest sc ms \<noteq> []"
  using max_attained[OF evaluatedMoves_nonempty, of ms sc sc]
  by (auto simp: tiedBest_def Let_def filter_empty_conv list_all_iff)

lemma tiedBest_single: "tiedBest sc [m] = [m]"
  by (simp add: tiedBest_def)

lemma random_index:
  assumes "0 \<le> (r::real)" "r < 1" "0 < n"
  shows "nat \<lfloor>r * real n\<rfloor> < n"
proof -
  have "r * real n < real n" using assms by simp
  then have "\<lfloor>r * real n\<rfloor> < int n" by (simp add: floor_less_iff)
  moreover have "0 \<le> \<lfloor>r * real n\<rfloor>" using assms by simp
  ultimately show ?thesis by linarith
qed

lemma random_hits:
  assumes "i < n"
  shows "0 \<le> real i / real n \<and> real i / real n < 1 \<and> nat \<lfloor>real i / real n * real n\<rfloor> = i"
  using assms by simp

lemma findBestMove_Null: "getValidMoves bs sz = [] \<Longrightarrow> findBestMove bs d sz n rnd = Null"
  by (simp add: findBestMove_def)

lemma findBestMove_pick:
  assumes "getValidMoves bs sz \<noteq> []"
  shows "findBestMove bs d sz n rnd =
           (case nth_opt (tiedBest (moveScore bs (getMaxDepth sz n d) sz) (getValidMoves bs sz))
                   (nat \<lfloor>rnd * real (length (tiedBest (moveScore bs (getMaxDepth sz n d) sz)
                                                (getValidMoves bs sz)))\<rfloor>) of
              None \<Rightarrow> Undefined | Some m \<Rightarrow> Chosen m)"
  using assms by (simp add: findBestMove_def Let_def findBestMove_loop_tiedBest)

lemma findBestMove_in_range:
  assumes ne: "getValidMoves bs sz \<noteq> []" and r: "0 \<le> rnd" "rnd < 1"
  shows "\<exists>k < length (tiedBest (moveScore bs (getMaxDepth sz n d) sz) (getValidMoves bs sz)).
           k = nat \<lfloor>rnd * real (length (tiedBest (moveScore bs (getMaxDepth sz n d) sz)
                                                (getValidMoves bs sz)))\<rfloor>
         \<and> findBestMove bs d sz n rnd
             = Chosen (tiedBest (moveScore bs (getMaxDepth sz n d) sz) (getValidMoves bs sz) ! k)"
proof -
  let ?T = "tiedBest (moveScore bs (getMaxDepth sz n d) sz) (getValidMoves bs sz)"
  have "0 < length ?T" using tiedBest_nonempty[OF ne] by simp
  from random_index[OF r this] show ?thesis
    by (simp add: findBestMove_pick[OF ne] nth_opt_def)
qed

lemma findBestMove_Chosen:
  assumes "findBestMove bs d sz n rnd = Chosen m"
  shows "m \<in> set (tiedBest (moveScore bs (getMaxDepth sz n d) sz) (getValidMoves bs sz))"
proof (cases "getValidMoves bs sz = []")
  case True
  with assms show ?thesis by (simp add: findBestMove_Null)
next
  case False
  from assms show ?thesis
    unfolding findBestMove_pick[OF False]
    by (auto simp: nth_opt_def split: if_splits)
qed

text \<open>
  Claim C3. For every board set, \<open>findBestMove\<close> returns \<open>null\<close> exactly when no
  legal move exists, which is exactly when every board is dead or has no Empty cell;
  a move it returns is legal: its target board is not dead and its target cell is
  Empty; and for a random value in \<open>[0, 1)\<close> it never returns \<open>undefined\<close>. The
  function is total: none of its steps can throw.
\<close>

theorem findBestMove_null_iff_no_legal_move:
  "((findBestMove bs d sz n rnd = Null) = (\<not> (\<exists>m. legalMove bs sz m)))
   \<and> ((\<not> (\<exists>m. legalMove bs sz m))
        = list_all (\<lambda>board. isBoardDead board sz \<or> '''' \<notin> set board) bs)
   \<and> (\<forall>m. findBestMove bs d sz n rnd = Chosen m \<longrightarrow> legalMove bs sz m)
   \<and> (0 \<le> rnd \<and> rnd < 1 \<longrightarrow> findBestMove bs d sz n rnd \<noteq> Undefined)"
proof (intro conjI allI impI)
  have e: "(getValidMoves bs sz = []) = (\<not> (\<exists>m. legalMove bs sz m))"
    using set_getValidMoves[of bs sz] by auto
  show "(findBestMove bs d sz n rnd = Null) = (\<not> (\<exists>m. legalMove bs sz m))"
  proof (cases "getValidMoves bs sz = []")
    case True
    with e show ?thesis by (simp add: findBestMove_Null)
  next
    case False
    have "findBestMove bs d sz n rnd \<noteq> Null"
      unfolding findBestMove_pick[OF False] by (simp split: option.splits)
    with False e show ?thesis by simp
  qed
  show "(\<not> (\<exists>m. legalMove bs sz m))
        = list_all (\<lambda>board. isBoardDead board sz \<or> '''' \<notin> set board) bs"
    using e no_legal_iff[of bs sz] by simp
next
  fix m assume "findBestMove bs d sz n rnd = Chosen m"
  from findBestMove_Chosen[OF this] tiedBest_subset set_getValidMoves[of bs sz]
  show "legalMove bs sz m" by blast
next
  assume r: "0 \<le> rnd \<and> rnd < 1"
  show "findBestMove bs d sz n rnd \<noteq> Undefined"
  proof (cases "getValidMoves bs sz = []")
    case True
    then show ?thesis by (simp add: findBestMove_Null)
  next
    case False
    from findBestMove_in_range[OF False, of rnd n d] r show ?thesis by auto
  qed
qed

text \<open>The marked 1 by 1 board has no move; on the empty one a legal move is returned.\<close>

theorem findBestMove_null_iff_no_legal_move_witness:
  "findBestMove [[''X'']] 1 1 1 0 = Null
   \<and> findBestMove [['''']] 1 1 1 0 \<noteq> Null \<and> findBestMove [['''']] 1 1 1 0 \<noteq> Undefined
   \<and> (\<exists>m. findBestMove [['''']] 1 1 1 0 = Chosen m \<and> legalMove [['''']] 1 m)"
proof -
  have 1: "list_all (\<lambda>board. isBoardDead board 1 \<or> '''' \<notin> set board) [[''X'']]"
    by code_simp
  have 2: "\<not> list_all (\<lambda>board. isBoardDead board 1 \<or> '''' \<notin> set board) [['''']]"
    by code_simp
  have a: "findBestMove [[''X'']] 1 1 1 0 = Null"
    using findBestMove_null_iff_no_legal_move[of "[[''X'']]" 1 1 1 0] 1 by simp
  have b: "findBestMove [['''']] 1 1 1 0 \<noteq> Null" "findBestMove [['''']] 1 1 1 0 \<noteq> Undefined"
    and c: "\<forall>m. findBestMove [['''']] 1 1 1 0 = Chosen m \<longrightarrow> legalMove [['''']] 1 m"
    using findBestMove_null_iff_no_legal_move[of "[['''']]" 1 1 1 0] 2 by simp_all
  from b obtain m where "findBestMove [['''']] 1 1 1 0 = Chosen m"
    by (cases "findBestMove [['''']] 1 1 1 0") auto
  with c have "\<exists>m. findBestMove [['''']] 1 1 1 0 = Chosen m \<and> legalMove [['''']] 1 m"
    by blast
  with a b show ?thesis by blast
qed

text \<open>
  Claim C4. For every board set with at least one legal move and every random value
  in \<open>[0, 1)\<close>, the move \<open>findBestMove\<close> returns is one of the moves tied for the
  maximum score among the candidates evaluated up to the early exit on plus infinity;
  every move of that tied set is returned for some random value in \<open>[0, 1)\<close>; and
  if there is exactly one legal move, that move is returned.
\<close>

theorem findBestMove_among_tied_best:
  assumes "\<exists>m. legalMove bs sz m" and "0 \<le> rnd" and "rnd < 1"
  shows "(\<exists>m \<in> set (tiedBest (moveScore bs (getMaxDepth sz n d) sz) (getValidMoves bs sz)).
            findBestMove bs d sz n rnd = Chosen m)
       \<and> (\<forall>m \<in> set (tiedBest (moveScore bs (getMaxDepth sz n d) sz) (getValidMoves bs sz)).
            \<exists>r. 0 \<le> r \<and> r < 1 \<and> findBestMove bs d sz n r = Chosen m)
       \<and> (\<forall>m0. legalMove bs sz m0 \<and> (\<forall>m. legalMove bs sz m \<longrightarrow> m = m0)
              \<longrightarrow> findBestMove bs d sz n rnd = Chosen m0)"
proof -
  let ?T = "tiedBest (moveScore bs (getMaxDepth sz n d) sz) (getValidMoves bs sz)"
  from assms(1) have ne: "getValidMoves bs sz \<noteq> []"
    using set_getValidMoves[of bs sz] by auto
  from findBestMove_in_range[OF ne assms(2,3), of n d]
  have a: "\<exists>m \<in> set ?T. findBestMove bs d sz n rnd = Chosen m"
    by (auto simp: in_set_conv_nth)
  have b: "\<exists>r. 0 \<le> r \<and> r < 1 \<and> findBestMove bs d sz n r = Chosen m" if "m \<in> set ?T" for m
  proof -
    from that obtain i where i: "i < length ?T" "?T ! i = m" by (auto simp: in_set_conv_nth)
    let ?r = "real i / real (length ?T)"
    from random_hits[OF i(1)] have r: "0 \<le> ?r" "?r < 1" "nat \<lfloor>?r * real (length ?T)\<rfloor> = i"
      by simp_all
    have "findBestMove bs d sz n ?r = Chosen m"
      unfolding findBestMove_pick[OF ne] r(3) using i by (simp add: nth_opt_def)
    with r show ?thesis by blast
  qed
  have c: "findBestMove bs d sz n rnd = Chosen m0"
    if "legalMove bs sz m0 \<and> (\<forall>m. legalMove bs sz m \<longrightarrow> m = m0)" for m0
  proof -
    from a obtain m where m: "m \<in> set ?T" "findBestMove bs d sz n rnd = Chosen m" by blast
    from m(1) tiedBest_subset set_getValidMoves[of bs sz] have "legalMove bs sz m" by blast
    with that m(2) show ?thesis by auto
  qed
  from a b c show ?thesis by blast
qed

text \<open>
  On the empty 2 by 2 board all four moves are tied, and each is returned for some
  random value.
\<close>

theorem findBestMove_among_tied_best_witness:
  "(\<exists>m. legalMove [replicate 4 ''''] 2 m)
   \<and> (\<exists>m \<in> set [Move 0 0, Move 0 1, Move 0 2, Move 0 3].
         findBestMove [replicate 4 ''''] 1 2 1 (1/2) = Chosen m)
   \<and> (\<exists>r. 0 \<le> r \<and> r < 1 \<and> findBestMove [replicate 4 ''''] 1 2 1 r = Chosen (Move 0 0))
   \<and> (\<exists>r. 0 \<le> r \<and> r < 1 \<and> findBestMove [replicate 4 ''''] 1 2 1 r = Chosen (Move 0 1))
   \<and> (\<exists>r. 0 \<le> r \<and> r < 1 \<and> findBestMove [replicate 4 ''''] 1 2 1 r = Chosen (Move 0 2))
   \<and> (\<exists>r. 0 \<le> r \<and> r < 1 \<and> findBestMove [replicate 4 ''''] 1 2 1 r = Chosen (Move 0 3))"
proof -
  have l: "legalMove [replicate 4 ''''] 2 (Move 0 0)"
    by code_simp
  then have h: "\<exists>m. legalMove [replicate 4 ''''] 2 m" ..
  have t: "tiedBest (moveScore [replicate 4 ''''] (getMaxDepth 2 1 1) 2)
             (getValidMoves [replicate 4 ''''] 2) = [Move 0 0, Move 0 1, Move 0 2, Move 0 3]"
    by code_simp
  show ?thesis
    using findBestMove_among_tied_best[OF h, of "1/2" 1 1] h unfolding t by simp
qed

section \<open>Game state machine\<close>

lemma nth_opt_Some: "nth_opt xs i = Some x \<longleftrightarrow> i < length xs \<and> xs ! i = x"
  by (auto simp: nth_opt_def)

lemma markCell_eq:
  assumes "ci < length (bs ! bi)"
  shows "markCell bs bi ci = bs[bi := (bs ! bi)[ci := ''X'']]"
proof (rule nth_equalityI)
  show "length (markCell bs bi ci) = length (bs[bi := (bs ! bi)[ci := ''X'']])"
    by (simp add: markCell_def)
next
  fix i assume "i < length (markCell bs bi ci)"
  then have i: "i < length bs" by (simp add: markCell_def)
  have inner: "take ci (bs ! bi) @ ''X'' # drop (Suc ci) (bs ! bi) = (bs ! bi)[ci := ''X'']"
    by (simp add: upd_conv_take_nth_drop[OF assms])
  show "markCell bs bi ci ! i = bs[bi := (bs ! bi)[ci := ''X'']] ! i"
    using i by (simp add: markCell_def nth_enumerate_eq slice_def inner nth_list_update)
qed

lemma handleMove_no_board:
  "nth_opt (boards s) bi = None \<Longrightarrow> handleMove R s bi ci = Inl TypeError"
  by (simp add: handleMove_def)

lemma handleMove_illegal:
  assumes "nth_opt (boards s) bi = Some target"
    and "nth_opt target ci \<noteq> Some '''' \<or> isBoardDead_App (boardSize s) target"
  shows "handleMove R s bi ci = Inr s"
  using assms by (simp add: handleMove_def)

lemma handleMove_legal:
  assumes t: "nth_opt (boards s) bi = Some target"
    and c: "nth_opt target ci = Some ''''"
    and d: "\<not> isBoardDead_App (boardSize s) target"
  shows "\<exists>s'. handleMove R s bi ci = Inr s'
     \<and> boards s' = (boards s)[bi := target[ci := ''X'']]
     \<and> gameHistory s' = gameHistory s @ [boards s']
     \<and> (if list_all (isBoardDead_App (boardSize s)) (boards s')
         then currentPlayer s' = currentPlayer s \<and> showWinnerModal s'
              \<and> winner s' = (if currentPlayer s = Player1 then player2Name s else player1Name s)
         else currentPlayer s' = other (currentPlayer s))"
proof -
  from t have bi: "bi < length (boards s)" "boards s ! bi = target" by (simp_all add: nth_opt_Some)
  from c have ci: "ci < length target" by (simp add: nth_opt_Some)
  have mk: "markCell (boards s) bi ci = (boards s)[bi := target[ci := ''X'']]"
    using markCell_eq[of ci "boards s" bi] bi ci by simp
  show ?thesis
  proof (cases "list_all (isBoardDead_App (boardSize s)) ((boards s)[bi := target[ci := ''X'']])")
    case True
    then show ?thesis using t c d
      by (simp add: handleMove_def mk Let_def other_def)
  next
    case False
    then show ?thesis using t c d
      by (simp add: handleMove_def mk Let_def)
  qed
qed

text \<open>
  Claim C1. For every state and every legal move (the target board exists and is not
  dead, the target cell is Empty), \<open>handleMove\<close> yields a state whose board set is the
  old one with exactly that cell Marked and whose history is the old history with this
  board set appended. If some board of the new set is not dead, the turn marker is
  flipped. If every board of the new set is dead, the turn marker is not flipped, the
  winner dialog is shown, and the reported winner is the opponent of the side that
  moved: the loser is the mover.
\<close>

theorem handleMove_applies_legal_move:
  assumes "nth_opt (boards s) bi = Some target"
    and "nth_opt target ci = Some ''''"
    and "\<not> isBoardDead_App (boardSize s) target"
  shows "\<exists>s'. handleMove R s bi ci = Inr s'
     \<and> boards s' = (boards s)[bi := target[ci := ''X'']]
     \<and> gameHistory s' = gameHistory s @ [boards s']
     \<and> (if list_all (isBoardDead_App (boardSize s)) (boards s')
         then currentPlayer s' = currentPlayer s \<and> showWinnerModal s'
              \<and> winner s' = (if currentPlayer s = Player1 then player2Name s else player1Name s)
         else currentPlayer s' = other (currentPlayer s))"
  using assms by (rule handleMove_legal)

text \<open>
  The centre of the first of three empty 3 by 3 boards, after which it is the second
  player's turn; and the only cell of a single 1 by 1 board, which ends the match with
  the first player, who moved, as the loser.
\<close>

theorem handleMove_applies_legal_move_witness:
  "(\<exists>s'. handleMove (\<lambda>_ _ _ _. (0, 0)) (resetGame 3 3 initialState) 0 4 = Inr s'
         \<and> boards s' = (replicate 3 (replicate 9 ''''))[0 := (replicate 9 '''')[4 := ''X'']]
         \<and> gameHistory s' = [replicate 3 (replicate 9 ''''), boards s']
         \<and> currentPlayer s' = Player2)
   \<and> (\<exists>s'. handleMove (\<lambda>_ _ _ _. (0, 0)) (initialState\<lparr>boards := [['''']], boardSize := 1\<rparr>) 0 0
              = Inr s'
         \<and> boards s' = [[''X'']] \<and> currentPlayer s' = Player1 \<and> showWinnerModal s'
         \<and> winner s' = ''Player 2'')"
proof -
  let ?s = "resetGame 3 3 initialState"
  have b: "boards ?s = replicate 3 (replicate 9 '''')"
    and h: "gameHistory ?s = [replicate 3 (replicate 9 '''')]"
    and z: "boardSize ?s = 3" and p: "currentPlayer ?s = Player1"
    by (simp_all add: resetGame_def initialState_def Let_def)
  have h1: "nth_opt (boards ?s) 0 = Some (replicate 9 '''')" unfolding b by code_simp
  have h2: "nth_opt (replicate 9 '''') 4 = Some (''''::string)" by code_simp
  have h3: "\<not> isBoardDead_App (boardSize ?s) (replicate 9 '''')" unfolding z by code_simp
  have nd: "\<not> list_all (isBoardDead_App (boardSize ?s))
                ((boards ?s)[0 := (replicate 9 '''')[4 := ''X'']])"
    unfolding z b by code_simp
  have first: "\<exists>s'. handleMove (\<lambda>_ _ _ _. (0, 0)) ?s 0 4 = Inr s'
         \<and> boards s' = (replicate 3 (replicate 9 ''''))[0 := (replicate 9 '''')[4 := ''X'']]
         \<and> gameHistory s' = [replicate 3 (replicate 9 ''''), boards s']
         \<and> currentPlayer s' = Player2"
    using handleMove_applies_legal_move[OF h1 h2 h3, of "\<lambda>_ _ _ _. (0, 0)"] nd p
    by (auto simp: other_def b h)
  let ?t = "initialState\<lparr>boards := [['''']], boardSize := 1\<rparr>"
  have tb: "boards ?t = [['''']]" and tz: "boardSize ?t = 1"
    and tp: "currentPlayer ?t = Player1" and tn: "player2Name ?t = ''Player 2''"
    by (simp_all add: initialState_def)
  have g1: "nth_opt (boards ?t) 0 = Some ['''']" unfolding tb by code_simp
  have g2: "nth_opt [''''] 0 = Some (''''::string)" by code_simp
  have g3: "\<not> isBoardDead_App (boardSize ?t) ['''']" unfolding tz by code_simp
  have d: "list_all (isBoardDead_App (boardSize ?t)) ((boards ?t)[0 := [''''][0 := ''X'']])"
    unfolding tz tb by code_simp
  have second: "\<exists>s'. handleMove (\<lambda>_ _ _ _. (0, 0)) ?t 0 0 = Inr s'
         \<and> boards s' = [[''X'']] \<and> currentPlayer s' = Player1 \<and> showWinnerModal s'
         \<and> winner s' = ''Player 2''"
    using handleMove_applies_legal_move[OF g1 g2 g3, of "\<lambda>_ _ _ _. (0, 0)"] d tp tn
    by (auto simp: tb)
  from first second show ?thesis by blast
qed

text \<open>
  Claim C2. For a target board that exists, \<open>handleMove\<close> returns the state unchanged
  if and only if the target cell is not Empty or the target board is dead; when the
  cell is Empty and the board is not dead, the boards and the history of the returned
  state both differ from the old ones.
\<close>

theorem handleMove_refuses_iff_illegal:
  assumes "nth_opt (boards s) bi = Some target"
  shows "((handleMove R s bi ci = Inr s)
            = (nth_opt target ci \<noteq> Some '''' \<or> isBoardDead_App (boardSize s) target))
       \<and> (nth_opt target ci = Some '''' \<and> \<not> isBoardDead_App (boardSize s) target
            \<longrightarrow> (\<exists>s'. handleMove R s bi ci = Inr s' \<and> boards s' \<noteq> boards s
                      \<and> gameHistory s' \<noteq> gameHistory s))"
proof -
  have legal: "\<exists>s'. handleMove R s bi ci = Inr s' \<and> boards s' \<noteq> boards s
                      \<and> gameHistory s' \<noteq> gameHistory s"
    if c: "nth_opt target ci = Some ''''" and d: "\<not> isBoardDead_App (boardSize s) target"
  proof -
    from handleMove_legal[OF assms c d, of R] obtain s' where
      s': "handleMove R s bi ci = Inr s'" "boards s' = (boards s)[bi := target[ci := ''X'']]"
          "gameHistory s' = gameHistory s @ [boards s']" by blast
    from assms c have "bi < length (boards s)" "boards s ! bi = target" "ci < length target"
      "target ! ci = ''''" by (simp_all add: nth_opt_Some)
    then have "boards s' ! bi ! ci \<noteq> boards s ! bi ! ci" using s'(2) by simp
    then have "boards s' \<noteq> boards s" by auto
    with s' show ?thesis by auto
  qed
  show ?thesis
  proof (cases "nth_opt target ci \<noteq> Some '''' \<or> isBoardDead_App (boardSize s) target")
    case True
    with handleMove_illegal[OF assms True, of R] show ?thesis by auto
  next
    case False
    with legal show ?thesis by auto
  qed
qed

text \<open>
  The four combinations on 3 by 3 boards: a dead board with an Empty and with a Marked
  target cell, a live board with a Marked target cell (all three refused), and a live
  board with an Empty target cell (applied).
\<close>

theorem handleMove_refuses_iff_illegal_witness:
  "handleMove (\<lambda>_ _ _ _. (0, 0))
     (initialState\<lparr>boards := [[''X'', ''X'', ''X'', '''', '''', '''', '''', '''', ''''],
                                [''X'', '''', '''', '''', '''', '''', '''', '''', '''']]\<rparr>) 0 3
   = Inr (initialState\<lparr>boards := [[''X'', ''X'', ''X'', '''', '''', '''', '''', '''', ''''],
                                [''X'', '''', '''', '''', '''', '''', '''', '''', '''']]\<rparr>)
   \<and> handleMove (\<lambda>_ _ _ _. (0, 0))
     (initialState\<lparr>boards := [[''X'', ''X'', ''X'', '''', '''', '''', '''', '''', ''''],
                                [''X'', '''', '''', '''', '''', '''', '''', '''', '''']]\<rparr>) 0 0
   = Inr (initialState\<lparr>boards := [[''X'', ''X'', ''X'', '''', '''', '''', '''', '''', ''''],
                                [''X'', '''', '''', '''', '''', '''', '''', '''', '''']]\<rparr>)
   \<and> handleMove (\<lambda>_ _ _ _. (0, 0))
     (initialState\<lparr>boards := [[''X'', ''X'', ''X'', '''', '''', '''', '''', '''', ''''],
                                [''X'', '''', '''', '''', '''', '''', '''', '''', '''']]\<rparr>) 1 0
   = Inr (initialState\<lparr>boards := [[''X'', ''X'', ''X'', '''', '''', '''', '''', '''', ''''],
                                [''X'', '''', '''', '''', '''', '''', '''', '''', '''']]\<rparr>)
   \<and> handleMove (\<lambda>_ _ _ _. (0, 0))
     (initialState\<lparr>boards := [[''X'', ''X'', ''X'', '''', '''', '''', '''', '''', ''''],
                                [''X'', '''', '''', '''', '''', '''', '''', '''', '''']]\<rparr>) 1 1
   \<noteq> Inr (initialState\<lparr>boards := [[''X'', ''X'', ''X'', '''', '''', '''', '''', '''', ''''],
                                [''X'', '''', '''', '''', '''', '''', '''', '''', '''']]\<rparr>)"
proof -
  let ?dead = "[''X'', ''X'', ''X'', '''', '''', '''', '''', '''', '''']"
  let ?live = "[''X'', '''', '''', '''', '''', '''', '''', '''', '''']"
  let ?s = "initialState\<lparr>boards := [?dead, ?live]\<rparr>"
  have b: "boards ?s = [?dead, ?live]" and z: "boardSize ?s = 3"
    by (simp_all add: initialState_def)
  have t0: "nth_opt (boards ?s) 0 = Some ?dead" unfolding b by code_simp
  have t1: "nth_opt (boards ?s) 1 = Some ?live" unfolding b by code_simp
  have d0: "isBoardDead_App (boardSize ?s) ?dead" unfolding z by code_simp
  have d1: "\<not> isBoardDead_App (boardSize ?s) ?live" unfolding z by code_simp
  have c03: "nth_opt ?dead 3 = Some ''''" by code_simp
  have c00: "nth_opt ?dead 0 \<noteq> Some ''''" by code_simp
  have c10: "nth_opt ?live 0 \<noteq> Some ''''" by code_simp
  have c11: "nth_opt ?live 1 = Some ''''" by code_simp
  show ?thesis
    using handleMove_refuses_iff_illegal[OF t0, of "\<lambda>_ _ _ _. (0, 0)" 3]
      handleMove_refuses_iff_illegal[OF t0, of "\<lambda>_ _ _ _. (0, 0)" 0]
      handleMove_refuses_iff_illegal[OF t1, of "\<lambda>_ _ _ _. (0, 0)" 0]
      handleMove_refuses_iff_illegal[OF t1, of "\<lambda>_ _ _ _. (0, 0)" 1]
      d0 d1 c03 c00 c10 c11
    by blast
qed

text \<open>
  Claim C10. After \<open>resetGame\<close>, after every applied move, and after every undo that
  rolls back (at least three snapshots and at least 100 coins, in which case the last
  two snapshots are dropped), the board set is the last snapshot of the history.
\<close>

theorem boards_eq_last_history:
  "boards (resetGame num sz s) = last (gameHistory (resetGame num sz s))
   \<and> (nth_opt (boards s) bi = Some target \<and> nth_opt target ci = Some ''''
        \<and> \<not> isBoardDead_App (boardSize s) target
      \<longrightarrow> (\<exists>s'. handleMove R s bi ci = Inr s' \<and> boards s' = last (gameHistory s')))
   \<and> (length (gameHistory s) \<ge> 3 \<and> coins s \<ge> 100
      \<longrightarrow> gameHistory (handleUndo s) = take (length (gameHistory s) - 2) (gameHistory s)
          \<and> boards (handleUndo s) = last (gameHistory (handleUndo s)))"
proof (intro conjI impI)
  show "boards (resetGame num sz s) = last (gameHistory (resetGame num sz s))"
    by (simp add: resetGame_def Let_def)
next
  assume "nth_opt (boards s) bi = Some target \<and> nth_opt target ci = Some ''''
        \<and> \<not> isBoardDead_App (boardSize s) target"
  then obtain s' where "handleMove R s bi ci = Inr s'" "gameHistory s' = gameHistory s @ [boards s']"
    using handleMove_legal[of s bi target ci R] by blast
  then show "\<exists>s'. handleMove R s bi ci = Inr s' \<and> boards s' = last (gameHistory s')"
    by auto
next
  assume a: "length (gameHistory s) \<ge> 3 \<and> coins s \<ge> 100"
  then show "gameHistory (handleUndo s) = take (length (gameHistory s) - 2) (gameHistory s)"
    by (simp add: handleUndo_def slice_def)
  let ?h = "gameHistory s"
  from a have ne: "take (length ?h - 2) ?h \<noteq> []" by auto
  from a have lt: "length ?h - 3 < length ?h - 2" by linarith
  from a have "last (take (length ?h - 2) ?h) = ?h ! (length ?h - 3)"
    unfolding last_conv_nth[OF ne] by (simp add: diff_diff_eq nth_take[OF lt])
  with a show "boards (handleUndo s) = last (gameHistory (handleUndo s))"
    by (simp add: handleUndo_def slice_def)
qed

text \<open>A first move after a reset, and an undo on a history of three snapshots.\<close>

theorem boards_eq_last_history_witness:
  "(\<exists>s'. handleMove (\<lambda>_ _ _ _. (0, 0)) (resetGame 3 3 initialState) 0 4 = Inr s'
         \<and> boards s' = last (gameHistory s'))
   \<and> boards (handleUndo (initialState\<lparr>boards := [[''X'', ''X'']],
                 gameHistory := [[['''', '''']], [[''X'', '''']], [[''X'', ''X'']]]\<rparr>))
       = [['''', '''']]
   \<and> gameHistory (handleUndo (initialState\<lparr>boards := [[''X'', ''X'']],
                 gameHistory := [[['''', '''']], [[''X'', '''']], [[''X'', ''X'']]]\<rparr>))
       = [[['''', '''']]]"
proof -
  let ?s = "resetGame 3 3 initialState"
  have b: "boards ?s = replicate 3 (replicate 9 '''')" and z: "boardSize ?s = 3"
    by (simp_all add: resetGame_def initialState_def Let_def)
  have h1: "nth_opt (boards ?s) 0 = Some (replicate 9 '''')" unfolding b by code_simp
  have h2: "nth_opt (replicate 9 '''') 4 = Some (''''::string)" by code_simp
  have h3: "\<not> isBoardDead_App (boardSize ?s) (replicate 9 '''')" unfolding z by code_simp
  let ?u = "initialState\<lparr>boards := [[''X'', ''X'']],
                 gameHistory := [[['''', '''']], [[''X'', '''']], [[''X'', ''X'']]]\<rparr>"
  have u: "length (gameHistory ?u) \<ge> 3 \<and> coins ?u \<ge> 100"
    and g: "gameHistory ?u = [[['''', '''']], [[''X'', '''']], [[''X'', ''X'']]]"
    by (simp_all add: initialState_def)
  show ?thesis
    using boards_eq_last_history[of 3 3 ?s 0 "replicate 9 ''''" 4 "\<lambda>_ _ _ _. (0, 0)"]
      boards_eq_last_history[of 3 3 ?u 0 "[]" 0 "\<lambda>_ _ _ _. (0, 0)"]
      h1 h2 h3 u
    by (simp add: g)
qed

end
